theory Spec2Isabelle
  imports Complex_Main
begin

section \<open>Numbers and exceptions\<close>

text \<open>
  The TypeScript sources compute with the JavaScript type \<open>number\<close>. Timestamps, deltas,
  intervals and coordinates are modelled as exact reals: \<open>NaN\<close>, the infinities and the
  rounding of IEEE doubles are outside the model.

  A call that may throw returns a \<open>result\<close>: \<open>Ok s\<close> is a normal return in state \<open>s\<close>,
  \<open>Exn s\<close> an exception raised in state \<open>s\<close> (mutations made before the throw stay, as in
  JavaScript). \<open>try_catch\<close> is the statement \<^verbatim>\<open>try { ... } catch {}\<close> with an empty handler.
\<close>

datatype 's result = Ok 's | Exn 's

fun state_of :: "'s result \<Rightarrow> 's" where
  "state_of (Ok s) = s"
| "state_of (Exn s) = s"

definition try_catch :: "'s result \<Rightarrow> 's result" where
  "try_catch r = (case r of Ok s \<Rightarrow> Ok s | Exn s \<Rightarrow> Ok s)"

section \<open>The shared ticker (timing/ticker.ts)\<close>

text \<open>
  A tick handler is a JavaScript function; the \<open>Set\<close> of listeners compares functions by
  identity, so a handler is modelled by the natural number that identifies the function object.
  What a handler does to the ticker when it is called is a list of commands: it may subscribe a
  handler, call an unsubscribe function, call \<open>stopTicker\<close>, and throw (which ends its body).
\<close>

type_synonym handler = nat

datatype tick_cmd = TOnTick handler | TUnsub handler | TStopTicker | TThrow

text \<open>
  The module variables \<open>listeners\<close>, \<open>rafId\<close>, \<open>lastTs\<close> and \<open>accTime\<close>, together with the
  part of the host the module talks to: \<open>pending\<close> are the animation-frame requests the host
  holds (by id, oldest first) and \<open>nextRaf\<close> the next id it hands out. \<open>delivered\<close> is a ghost
  log of every handler invocation \<open>fn(dt, accTime)\<close>, in order.
  A JavaScript \<open>Set\<close> iterates in insertion order and holds no duplicates: \<open>listeners\<close> is
  the list of its elements in that order.
\<close>

record ticker =
  listeners :: "handler list"
  rafId :: "nat option"
  lastTs :: "real option"
  accTime :: real
  pending :: "nat list"
  nextRaf :: nat
  delivered :: "(handler \<times> real \<times> real) list"

definition ticker0 :: ticker where
  "ticker0 = \<lparr>listeners = [], rafId = None, lastTs = None, accTime = 0,
              pending = [], nextRaf = 0, delivered = []\<rparr>"

definition MAX_DT :: real where
  "MAX_DT = 100"

definition set_add :: "'a \<Rightarrow> 'a list \<Rightarrow> 'a list" where
  "set_add x xs = (if x \<in> set xs then xs else xs @ [x])"

definition set_delete :: "'a \<Rightarrow> 'a list \<Rightarrow> 'a list" where
  "set_delete x xs = removeAll x xs"

definition requestAnimationFrame :: "ticker \<Rightarrow> nat \<times> ticker" where
  "requestAnimationFrame s =
     (nextRaf s, s\<lparr>pending := pending s @ [nextRaf s], nextRaf := Suc (nextRaf s)\<rparr>)"

definition cancelAnimationFrame :: "nat \<Rightarrow> ticker \<Rightarrow> ticker" where
  "cancelAnimationFrame i s = s\<lparr>pending := removeAll i (pending s)\<rparr>"

definition onTick :: "handler \<Rightarrow> ticker \<Rightarrow> ticker" where
  "onTick h s =
     (let s1 = s\<lparr>listeners := set_add h (listeners s)\<rparr>
      in if rafId s1 = None
         then (case requestAnimationFrame s1 of (i, s2) \<Rightarrow> s2\<lparr>rafId := Some i\<rparr>)
         else s1)"

text \<open>The function \<open>onTick\<close> returns: \<^verbatim>\<open>() => { listeners.delete(handler) }\<close>.\<close>

definition unsub :: "handler \<Rightarrow> ticker \<Rightarrow> ticker" where
  "unsub h s = s\<lparr>listeners := set_delete h (listeners s)\<rparr>"

definition isTicking :: "ticker \<Rightarrow> bool" where
  "isTicking s = (length (listeners s) > 0)"

definition stopTicker :: "ticker \<Rightarrow> ticker" where
  "stopTicker s =
     (let s1 = (case rafId s of
                  Some i \<Rightarrow> (cancelAnimationFrame i s)\<lparr>rafId := None\<rparr>
                | None \<Rightarrow> s)
      in s1\<lparr>lastTs := None\<rparr>)"

text \<open>
  The body of handler \<open>fn\<close>, called with \<open>(dt, t)\<close> in ticker state \<open>s\<close>, is \<open>H fn s dt t\<close>:
  the commands may depend on the arguments and on everything the handler could have observed.
\<close>

type_synonym handlers = "handler \<Rightarrow> ticker \<Rightarrow> real \<Rightarrow> real \<Rightarrow> tick_cmd list"

fun run_cmds :: "tick_cmd list \<Rightarrow> ticker \<Rightarrow> ticker result" where
  "run_cmds [] s = Ok s"
| "run_cmds (TOnTick h # cs) s = run_cmds cs (onTick h s)"
| "run_cmds (TUnsub h # cs) s = run_cmds cs (unsub h s)"
| "run_cmds (TStopTicker # cs) s = run_cmds cs (stopTicker s)"
| "run_cmds (TThrow # cs) s = Exn s"

definition invoke :: "handlers \<Rightarrow> handler \<Rightarrow> real \<Rightarrow> real \<Rightarrow> ticker \<Rightarrow> ticker result" where
  "invoke H fn dt t s =
     (let s1 = s\<lparr>delivered := delivered s @ [(fn, dt, t)]\<rparr>
      in run_cmds (H fn s1 dt t) s1)"

text \<open>
  \<^verbatim>\<open>for (const fn of snapshot) { try { fn(dt, accTime) } catch (err) { } }\<close>:
  an exception that escaped an iteration would end the loop and leave the function.
\<close>

fun call_listeners :: "handlers \<Rightarrow> real \<Rightarrow> handler list \<Rightarrow> ticker \<Rightarrow> ticker result" where
  "call_listeners H dt [] s = Ok s"
| "call_listeners H dt (fn # snapshot) s =
     (case try_catch (invoke H fn dt (accTime s) s) of
        Ok s' \<Rightarrow> call_listeners H dt snapshot s'
      | Exn s' \<Rightarrow> Exn s')"

definition loop :: "handlers \<Rightarrow> real \<Rightarrow> ticker \<Rightarrow> ticker result" where
  "loop H ts s0 =
     (let s1 = s0\<lparr>rafId := None\<rparr>;
          l = (case lastTs s1 of None \<Rightarrow> ts | Some l \<Rightarrow> l);
          dt0 = ts - l;
          s2 = s1\<lparr>lastTs := Some ts\<rparr>;
          dt = min dt0 MAX_DT;
          s3 = s2\<lparr>accTime := accTime s2 + dt\<rparr>;
          r = (if length (listeners s3) > 0
               then call_listeners H dt (listeners s3) s3
               else Ok s3)
      in case r of
           Exn s \<Rightarrow> Exn s
         | Ok s4 \<Rightarrow>
             if length (listeners s4) > 0
             then (case requestAnimationFrame s4 of (i, s5) \<Rightarrow> Ok (s5\<lparr>rafId := Some i\<rparr>))
             else Ok (s4\<lparr>lastTs := None\<rparr>))"

text \<open>
  The host: at a frame with timestamp \<open>ts\<close> it runs the callbacks of the requests that are
  pending when the frame starts, oldest first, skipping one that was cancelled meanwhile;
  requests made during the frame wait for the next one. Every request of this module has
  \<open>loop\<close> as its callback.
\<close>

fun run_frame_callbacks :: "handlers \<Rightarrow> real \<Rightarrow> nat list \<Rightarrow> ticker \<Rightarrow> ticker result" where
  "run_frame_callbacks H ts [] s = Ok s"
| "run_frame_callbacks H ts (i # ids) s =
     (if i \<in> set (pending s)
      then (case loop H ts (s\<lparr>pending := removeAll i (pending s)\<rparr>) of
              Ok s' \<Rightarrow> run_frame_callbacks H ts ids s'
            | Exn s' \<Rightarrow> Exn s')
      else run_frame_callbacks H ts ids s)"

definition frame :: "handlers \<Rightarrow> real \<Rightarrow> ticker \<Rightarrow> ticker result" where
  "frame H ts s = run_frame_callbacks H ts (pending s) s"

text \<open>What the rest of the program and the host do to the ticker between pulses.\<close>

datatype event = Subscribe handler | Unsubscribe handler | StopTicker | Frame real

fun apply_event :: "handlers \<Rightarrow> event \<Rightarrow> ticker \<Rightarrow> ticker result" where
  "apply_event H (Subscribe h) s = Ok (onTick h s)"
| "apply_event H (Unsubscribe h) s = Ok (unsub h s)"
| "apply_event H StopTicker s = Ok (stopTicker s)"
| "apply_event H (Frame ts) s = frame H ts s"

fun exec :: "handlers \<Rightarrow> event list \<Rightarrow> ticker \<Rightarrow> ticker result" where
  "exec H [] s = Ok s"
| "exec H (e # es) s =
     (case apply_event H e s of
        Ok s' \<Rightarrow> exec H es s'
      | Exn s' \<Rightarrow> Exn s')"

section \<open>Action channels (timing/actions.ts)\<close>

text \<open>
  A \<open>Scheduled\<close> action is a tagged union. The objects are mutable and shared between the
  array \<open>this.actions\<close> and the copy that \<open>step\<close> iterates over, so the channel holds
  references (natural numbers) and a heap from references to objects. The callback \<open>fn\<close> is
  the identity of a function, as for tick handlers.
\<close>

datatype scheduled =
    PeriodicAction (name: "string option") (interval: real) (elapsed: real) (fn: nat)
      (catchUp: bool)
  | OnceAction (name: "string option") (delay: real) (elapsed: real) (fn: nat)

text \<open>
  \<open>calls\<close> is a ghost log of the callback invocations: \<open>Fired a\<close> when \<open>step\<close> calls
  \<open>a.fn()\<close> for the action with reference \<open>a\<close>, \<open>Immediate f\<close> when \<open>every\<close> calls \<open>fn()\<close>
  because of \<open>opts.immediate\<close>. \<open>subscribed\<close> stands for \<open>this.unsub !== null\<close>; the
  subscription itself lives in the ticker.
\<close>

datatype call = Fired nat | Immediate nat

record channel =
  actions :: "nat list"
  heap :: "nat \<Rightarrow> scheduled option"
  nextRef :: nat
  subscribed :: bool
  running :: bool
  calls :: "call list"

definition channel0 :: channel where
  "channel0 = \<lparr>actions = [], heap = (\<lambda>_. None), nextRef = 0, subscribed = False,
               running = False, calls = []\<rparr>"

text \<open>
  What a callback may do to its channel when it is called: schedule, cancel, start, stop,
  destroy, and throw. \<open>AEvery interval fn name catchUp immediate\<close> is a call of \<open>every\<close>;
  with \<open>opts.immediate\<close> set, \<open>every\<close> calls the new callback at once, and the last
  argument holds what that nested call does (\<open>None\<close> when \<open>immediate\<close> is not set), so that
  the commands of one invocation form a finite tree. A callback that calls \<open>step\<close> itself is
  outside this model.
\<close>

datatype act_cmd =
    AEvery real nat "string option" "bool option" "act_cmd list option"
  | AOnce real nat "string option"
  | ACancel "string option"
  | AStart
  | AStop
  | ADestroy
  | AThrow

type_synonym callbacks = "nat \<Rightarrow> channel \<Rightarrow> act_cmd list"

text \<open>\<open>x | 0\<close>: ToInt32, truncation towards zero and wrap-around into 32 signed bits.\<close>

definition to_int32 :: "real \<Rightarrow> int" where
  "to_int32 v =
     (let t = (if v < 0 then \<lceil>v\<rceil> else \<lfloor>v\<rfloor>);
          m = t mod 2 ^ 32
      in if m \<ge> 2 ^ 31 then m - 2 ^ 32 else m)"

text \<open>\<open>if (name)\<close> on a \<open>string | undefined\<close>: the empty string is falsy.\<close>

fun truthy :: "string option \<Rightarrow> bool" where
  "truthy None = False"
| "truthy (Some str) = (str \<noteq> [])"

definition push :: "scheduled \<Rightarrow> channel \<Rightarrow> channel" where
  "push item c =
     c\<lparr>actions := actions c @ [nextRef c],
       heap := (heap c)(nextRef c \<mapsto> item),
       nextRef := Suc (nextRef c)\<rparr>"

text \<open>The part of \<open>every\<close> before \<^verbatim>\<open>if (opts.immediate)\<close>.\<close>

definition every_push :: "real \<Rightarrow> nat \<Rightarrow> string option \<Rightarrow> bool option \<Rightarrow> channel \<Rightarrow> channel" where
  "every_push ival f nm cu c =
     push (PeriodicAction nm (of_int (max 0 (to_int32 ival))) 0 f
             (case cu of None \<Rightarrow> True | Some b \<Rightarrow> b)) c"

definition once :: "real \<Rightarrow> nat \<Rightarrow> string option \<Rightarrow> channel \<Rightarrow> channel" where
  "once dl f nm c = push (OnceAction nm (of_int (max 0 (to_int32 dl))) 0 f) c"

definition start :: "channel \<Rightarrow> channel" where
  "start c = (if running c then c else c\<lparr>running := True, subscribed := True\<rparr>)"

definition stop :: "channel \<Rightarrow> channel" where
  "stop c = (if \<not> running c then c else c\<lparr>running := False, subscribed := False\<rparr>)"

definition name_differs :: "channel \<Rightarrow> string \<Rightarrow> nat \<Rightarrow> bool" where
  "name_differs c str a = (case heap c a of None \<Rightarrow> True | Some obj \<Rightarrow> name obj \<noteq> Some str)"

definition cancel :: "string option \<Rightarrow> channel \<Rightarrow> channel" where
  "cancel nm c =
     (if truthy nm
      then c\<lparr>actions := filter (name_differs c (the nm)) (actions c)\<rparr>
      else c\<lparr>actions := []\<rparr>)"

definition isRunning :: "channel \<Rightarrow> bool" where
  "isRunning c = running c"

definition destroy :: "channel \<Rightarrow> channel" where
  "destroy c = (stop c)\<lparr>actions := []\<rparr>"

fun run_acts :: "act_cmd list \<Rightarrow> channel \<Rightarrow> channel result" where
  "run_acts [] c = Ok c"
| "run_acts (AEvery ival f nm cu None # cs) c = run_acts cs (every_push ival f nm cu c)"
| "run_acts (AEvery ival f nm cu (Some body) # cs) c =
     (let c1 = every_push ival f nm cu c;
          c2 = c1\<lparr>calls := calls c1 @ [Immediate f]\<rparr>
      in run_acts cs (state_of (try_catch (run_acts body c2))))"
| "run_acts (AOnce dl f nm # cs) c = run_acts cs (once dl f nm c)"
| "run_acts (ACancel nm # cs) c = run_acts cs (cancel nm c)"
| "run_acts (AStart # cs) c = run_acts cs (start c)"
| "run_acts (AStop # cs) c = run_acts cs (stop c)"
| "run_acts (ADestroy # cs) c = run_acts cs (destroy c)"
| "run_acts (AThrow # cs) c = Exn c"

text \<open>\<^verbatim>\<open>try { fn() } catch {}\<close>, with the invocation logged as \<open>ev\<close>.\<close>

definition try_fn :: "callbacks \<Rightarrow> call \<Rightarrow> nat \<Rightarrow> channel \<Rightarrow> channel" where
  "try_fn F ev f c =
     (let c1 = c\<lparr>calls := calls c @ [ev]\<rparr>
      in state_of (try_catch (run_acts (F f c1) c1)))"

record every_options =
  opt_name :: "string option"
  opt_immediate :: "bool option"
  opt_catchUp :: "bool option"

definition every :: "callbacks \<Rightarrow> real \<Rightarrow> nat \<Rightarrow> every_options \<Rightarrow> channel \<Rightarrow> channel" where
  "every F ival f opts c =
     (let c1 = every_push ival f (opt_name opts) (opt_catchUp opts) c
      in if opt_immediate opts = Some True then try_fn F (Immediate f) f c1 else c1)"

text \<open>\<^verbatim>\<open>while (n-- > 0) { try { a.fn() } catch {} }\<close>\<close>

fun fire_n :: "callbacks \<Rightarrow> nat \<Rightarrow> nat \<Rightarrow> nat \<Rightarrow> channel \<Rightarrow> channel" where
  "fire_n F 0 a f c = c"
| "fire_n F (Suc n) a f c = fire_n F n a f (try_fn F (Fired a) f c)"

definition set_elapsed :: "real \<Rightarrow> scheduled \<Rightarrow> scheduled" where
  "set_elapsed e obj =
     (case obj of
        PeriodicAction nm ival _ f cu \<Rightarrow> PeriodicAction nm ival e f cu
      | OnceAction nm dl _ f \<Rightarrow> OnceAction nm dl e f)"

definition write_elapsed :: "nat \<Rightarrow> real \<Rightarrow> channel \<Rightarrow> channel" where
  "write_elapsed a e c =
     (case heap c a of
        None \<Rightarrow> c
      | Some obj \<Rightarrow> c\<lparr>heap := (heap c)(a \<mapsto> set_elapsed e obj)\<rparr>)"

text \<open>
  The body of the \<open>for\<close> loop of \<open>step\<close> for the item with reference \<open>a\<close>. A reference in
  the array always has its object; for a dangling one the model does nothing.
  \<open>indexOf\<close> and \<open>splice\<close> remove the first occurrence, if there is one.
\<close>

definition step_item :: "callbacks \<Rightarrow> real \<Rightarrow> nat \<Rightarrow> channel \<Rightarrow> channel" where
  "step_item F dt a c0 =
     (case heap c0 a of
        None \<Rightarrow> c0
      | Some obj0 \<Rightarrow>
          let c = write_elapsed a (elapsed obj0 + dt) c0
          in (case obj0 of
                PeriodicAction nm ival e0 f cu \<Rightarrow>
                  if ival \<le> 0 then try_fn F (Fired a) f c
                  else if e0 + dt \<ge> ival then
                    (if cu
                     then (let n = \<lfloor>(e0 + dt) / ival\<rfloor>;
                               c' = write_elapsed a (e0 + dt - of_int n * ival) c
                           in fire_n F (nat n) a f c')
                     else (let c' = write_elapsed a (e0 + dt - ival) c
                           in try_fn F (Fired a) f c'))
                  else c
              | OnceAction nm dl e0 f \<Rightarrow>
                  if e0 + dt \<ge> dl
                  then (let c' = try_fn F (Fired a) f c
                        in c'\<lparr>actions := remove1 a (actions c')\<rparr>)
                  else c))"

fun step_items :: "callbacks \<Rightarrow> real \<Rightarrow> nat list \<Rightarrow> channel \<Rightarrow> channel" where
  "step_items F dt [] c = c"
| "step_items F dt (a # items) c = step_items F dt items (step_item F dt a c)"

definition step :: "callbacks \<Rightarrow> real \<Rightarrow> channel \<Rightarrow> channel" where
  "step F dt c =
     (if \<not> running c \<or> length (actions c) = 0 then c
      else step_items F dt (actions c) c)"

section \<open>Sprite sheets (actor/spritesheet.ts)\<close>

type_synonym size = "real \<times> real"

record sheet_meta =
  frameSize :: "size option"
  frames :: real
  spacing :: "real option"
  margin :: "real option"
  imageSize :: "size option"

datatype error = FrameSizeUnavailable

text \<open>
  \<open>ensureFrameSize\<close> returns the frame size and, when it had to infer it, stores it in the
  meta object: the model returns the meta as it is afterwards. The warning on the console is
  not modelled.
\<close>

definition ensureFrameSize :: "sheet_meta \<Rightarrow> error + (size \<times> sheet_meta)" where
  "ensureFrameSize meta =
     (case frameSize meta of
        Some (w, h) \<Rightarrow>
          if w > 0 \<and> h > 0 then Inr ((w, h), meta) else
          (case imageSize meta of
             None \<Rightarrow> Inl FrameSizeUnavailable
           | Some (imgW, imgH) \<Rightarrow>
               let n = of_int (max 1 (to_int32 (frames meta)));
                   sp = (case spacing meta of None \<Rightarrow> 0 | Some v \<Rightarrow> v);
                   mg = (case margin meta of None \<Rightarrow> 0 | Some v \<Rightarrow> v);
                   totalSpacing = sp * max 0 (n - 1);
                   usableW = imgW - mg * 2 - totalSpacing;
                   fw = of_int \<lfloor>usableW / n\<rfloor>;
                   fh = imgH - mg * 2
               in Inr ((fw, fh), meta\<lparr>frameSize := Some (fw, fh)\<rparr>))
      | None \<Rightarrow>
          (case imageSize meta of
             None \<Rightarrow> Inl FrameSizeUnavailable
           | Some (imgW, imgH) \<Rightarrow>
               let n = of_int (max 1 (to_int32 (frames meta)));
                   sp = (case spacing meta of None \<Rightarrow> 0 | Some v \<Rightarrow> v);
                   mg = (case margin meta of None \<Rightarrow> 0 | Some v \<Rightarrow> v);
                   totalSpacing = sp * max 0 (n - 1);
                   usableW = imgW - mg * 2 - totalSpacing;
                   fw = of_int \<lfloor>usableW / n\<rfloor>;
                   fh = imgH - mg * 2
               in Inr ((fw, fh), meta\<lparr>frameSize := Some (fw, fh)\<rparr>)))"

text \<open>The remainder operator \<open>%\<close> of JavaScript: the result has the sign of the dividend.\<close>

definition js_rem :: "real \<Rightarrow> real \<Rightarrow> real" where
  "js_rem a b = a - b * of_int (if a / b < 0 then \<lceil>a / b\<rceil> else \<lfloor>a / b\<rfloor>)"

record src_rect =
  sx :: real
  sy :: real
  sw :: real
  sh :: real

definition frameRect :: "sheet_meta \<Rightarrow> real \<Rightarrow> error + (src_rect \<times> sheet_meta)" where
  "frameRect meta fr =
     (let n = of_int (max 1 (to_int32 (frames meta)));
          sp = (case spacing meta of None \<Rightarrow> 0 | Some v \<Rightarrow> v);
          mg = (case margin meta of None \<Rightarrow> 0 | Some v \<Rightarrow> v)
      in case ensureFrameSize meta of
           Inl e \<Rightarrow> Inl e
         | Inr ((fw, fh), meta') \<Rightarrow>
             let f = js_rem (js_rem fr n + n) n
             in Inr (\<lparr>sx = mg + f * (fw + sp), sy = mg, sw = fw, sh = fh\<rparr>, meta'))"

section \<open>The camera viewport (viewport/camera.ts)\<close>

datatype anchor = TopLeft | Center

datatype follow_mode = FollowCenter | FollowDeadzone | FollowNone

text \<open>
  Of a view, \<open>updateFollow\<close> and \<open>getLogicalSize\<close> read \<open>view.actor.sheet\<close>,
  \<open>view.actor.state\<close> (\<open>x\<close>, \<open>y\<close>, \<open>frame\<close>), \<open>view.scale\<close> and \<open>view.anchor\<close>.
\<close>

record actor_state =
  state_x :: real
  state_y :: real
  state_frame :: real

record actor =
  sheet :: sheet_meta
  state :: actor_state

record view_model =
  view_actor :: actor
  scale :: real
  view_anchor :: anchor

text \<open>\<open>baseSize\<close> is a size or a function that computes one when it is called.\<close>

datatype base_size = FixedSize size | ComputedSize "unit \<Rightarrow> size"

record camera =
  follow :: follow_mode
  deadzone :: size
  padding :: size
  baseSize :: "base_size option"
  camX :: real
  camY :: real

definition set_sheet :: "sheet_meta \<Rightarrow> view_model \<Rightarrow> view_model" where
  "set_sheet meta v = v\<lparr>view_actor := (view_actor v)\<lparr>sheet := meta\<rparr>\<rparr>"

definition getLogicalSize :: "camera \<Rightarrow> view_model option \<Rightarrow> error + (size \<times> view_model option)" where
  "getLogicalSize cam view =
     (case baseSize cam of
        Some b \<Rightarrow>
          (let s = (case b of FixedSize sz \<Rightarrow> sz | ComputedSize g \<Rightarrow> g ())
           in Inr ((fst s, snd s), view))
      | None \<Rightarrow>
          (case view of
             None \<Rightarrow> Inr ((64, 64), None)
           | Some v \<Rightarrow>
               (case frameRect (sheet (view_actor v)) (state_frame (state (view_actor v))) of
                  Inl e \<Rightarrow> Inl e
                | Inr (r, meta') \<Rightarrow>
                    let w = sw r * scale v + fst (padding cam) * 2;
                        h = sh r * scale v + snd (padding cam) * 2
                    in Inr ((w, h), Some (set_sheet meta' v)))))"

text \<open>
  The first lines of \<open>updateFollow\<close> for a view: the world position of the centre of the
  sprite, from its frame size, scale and anchor.
\<close>

definition sprite_center :: "view_model \<Rightarrow> error + ((real \<times> real) \<times> view_model)" where
  "sprite_center v =
     (case frameRect (sheet (view_actor v)) (state_frame (state (view_actor v))) of
        Inl e \<Rightarrow> Inl e
      | Inr (r, meta') \<Rightarrow>
          let w = sw r * scale v;
              h = sh r * scale v;
              centerX = (if view_anchor v = Center then state_x (state (view_actor v))
                         else state_x (state (view_actor v)) + w / 2);
              centerY = (if view_anchor v = Center then state_y (state (view_actor v))
                         else state_y (state (view_actor v)) + h / 2)
          in Inr ((centerX, centerY), set_sheet meta' v))"

definition updateFollow :: "camera \<Rightarrow> view_model option \<Rightarrow> error + (camera \<times> view_model option)" where
  "updateFollow cam view =
     (case view of
        None \<Rightarrow> Inr (cam\<lparr>camX := 0, camY := 0\<rparr>, None)
      | Some v \<Rightarrow>
          (case sprite_center v of
             Inl e \<Rightarrow> Inl e
           | Inr ((centerX, centerY), v1) \<Rightarrow>
               (case getLogicalSize cam (Some v1) of
                  Inl e \<Rightarrow> Inl e
                | Inr ((vw, vh), view') \<Rightarrow>
                    if follow cam = FollowNone then Inr (cam, view')
                    else if follow cam = FollowCenter
                    then Inr (cam\<lparr>camX := centerX - vw / 2, camY := centerY - vh / 2\<rparr>, view')
                    else
                      (let dzx = fst (deadzone cam);
                           dzy = snd (deadzone cam);
                           vx = camX cam;
                           vy = camY cam;
                           vCenterX = vx + vw / 2;
                           vCenterY = vy + vh / 2;
                           vx1 = (if centerX < vCenterX - dzx
                                  then vx - ((vCenterX - dzx) - centerX) else vx);
                           vx2 = (if centerX > vCenterX + dzx
                                  then vx1 + (centerX - (vCenterX + dzx)) else vx1);
                           vy1 = (if centerY < vCenterY - dzy
                                  then vy - ((vCenterY - dzy) - centerY) else vy);
                           vy2 = (if centerY > vCenterY + dzy
                                  then vy1 + (centerY - (vCenterY + dzy)) else vy1)
                       in Inr (cam\<lparr>camX := vx2, camY := vy2\<rparr>, view')))))"

definition getWorldOffset :: "camera \<Rightarrow> real \<times> real" where
  "getWorldOffset cam = (camX cam, camY cam)"

section \<open>Auxiliary notions for the properties\<close>

text \<open>
  How far the centre \<open>c\<close> lies outside the interval of half-width \<open>d\<close> around \<open>vc\<close>
  (negative to the left of it, positive to the right, zero inside).
\<close>

definition overshoot :: "real \<Rightarrow> real \<Rightarrow> real \<Rightarrow> real" where
  "overshoot c vc d =
     (if c < vc - d then c - (vc - d) else if c > vc + d then c - (vc + d) else 0)"

text \<open>Example cameras and views.\<close>

definition cam_none :: camera where
  "cam_none = \<lparr>follow = FollowNone, deadzone = (0, 0), padding = (0, 0), baseSize = None,
               camX = 30, camY = 40\<rparr>"

definition cam_dz :: camera where
  "cam_dz = \<lparr>follow = FollowDeadzone, deadzone = (20, 20), padding = (0, 0),
             baseSize = Some (FixedSize (200, 200)), camX = 0, camY = 0\<rparr>"

definition view_at :: "real \<Rightarrow> real \<Rightarrow> view_model" where
  "view_at px py =
     \<lparr>view_actor = \<lparr>sheet = \<lparr>frameSize = Some (16, 16), frames = 4, spacing = None,
                              margin = None, imageSize = None\<rparr>,
                    state = \<lparr>state_x = px, state_y = py, state_frame = 0\<rparr>\<rparr>,
      scale = 1, view_anchor = Center\<rparr>"

text \<open>
  A camera without base size, and a view anchored at its top-left corner whose frame size
  (8 by 8, drawn at scale 2) has to come from the image size.
\<close>

definition cam_derived :: camera where
  "cam_derived = \<lparr>follow = FollowDeadzone, deadzone = (20, 20), padding = (92, 92),
             baseSize = None, camX = 0, camY = 0\<rparr>"

definition view_topleft :: "real \<Rightarrow> real \<Rightarrow> view_model" where
  "view_topleft px py =
     \<lparr>view_actor = \<lparr>sheet = \<lparr>frameSize = None, frames = 4, spacing = None,
                              margin = None, imageSize = Some (32, 8)\<rparr>,
                    state = \<lparr>state_x = px, state_y = py, state_frame = 0\<rparr>\<rparr>,
      scale = 2, view_anchor = TopLeft\<rparr>"

text \<open>
  The delta that a pulse with timestamp \<open>ts\<close> computes in state \<open>s\<close>, and the state in which
  \<open>loop\<close> has called the listeners and is about to decide whether to request the next frame.
\<close>

definition pulse_dt :: "real \<Rightarrow> ticker \<Rightarrow> real" where
  "pulse_dt ts s = min (ts - (case lastTs s of None \<Rightarrow> ts | Some l \<Rightarrow> l)) MAX_DT"

definition after_listeners :: "handlers \<Rightarrow> real \<Rightarrow> ticker \<Rightarrow> ticker" where
  "after_listeners H ts s =
     state_of (call_listeners H (pulse_dt ts s) (listeners s)
       (s\<lparr>rafId := None, lastTs := Some ts, accTime := accTime s + pulse_dt ts s\<rparr>))"

text \<open>The invocations that \<open>s'\<close> has logged beyond those of \<open>s\<close>.\<close>

definition new_deliveries :: "ticker \<Rightarrow> ticker \<Rightarrow> (handler \<times> real \<times> real) list" where
  "new_deliveries s s' = drop (length (delivered s)) (delivered s')"

definition delta_of :: "handler \<times> real \<times> real \<Rightarrow> real" where
  "delta_of d = fst (snd d)"

fun timestamps :: "event list \<Rightarrow> real list" where
  "timestamps [] = []"
| "timestamps (Frame ts # es) = ts # timestamps es"
| "timestamps (e # es) = timestamps es"

text \<open>
  \<open>one_slot\<close>: the requests the host holds are exactly the one recorded in \<open>rafId\<close>, if any.
  \<open>no_resubscribe\<close>: no handler calls \<open>onTick\<close> while it runs.
\<close>

definition one_slot :: "ticker \<Rightarrow> bool" where
  "one_slot s = (pending s = (case rafId s of None \<Rightarrow> [] | Some i \<Rightarrow> [i]))"

fun is_subscribe :: "tick_cmd \<Rightarrow> bool" where
  "is_subscribe (TOnTick h) = True"
| "is_subscribe c = False"

definition no_resubscribe :: "handlers \<Rightarrow> bool" where
  "no_resubscribe H = (\<forall>h s dt t. \<forall>c \<in> set (H h s dt t). \<not> is_subscribe c)"

text \<open>Example handlers: doing nothing; handler 0 throwing; handler 0 subscribing handler 1.\<close>

definition idle_handlers :: handlers where
  "idle_handlers h s dt t = []"

definition throwing_handlers :: handlers where
  "throwing_handlers h s dt t = (if h = 0 then [TThrow] else [])"

definition resubscribing_handlers :: handlers where
  "resubscribing_handlers h s dt t = (if h = 0 then [TOnTick 1] else [])"

text \<open>Two listeners, the request of the current pulse just taken by the host.\<close>

definition two_listeners :: ticker where
  "two_listeners = \<lparr>listeners = [0, 1], rafId = Some 0, lastTs = Some 1000, accTime = 32,
              pending = [], nextRaf = 1, delivered = []\<rparr>"

text \<open>\<open>armed\<close>: when there are listeners, a frame request is recorded.\<close>

definition armed :: "ticker \<Rightarrow> bool" where
  "armed s = (listeners s \<noteq> [] \<longrightarrow> rafId s \<noteq> None)"

text \<open>Example handlers: every handler unsubscribes itself when it is called.\<close>

definition unsubscribing_handlers :: handlers where
  "unsubscribing_handlers h s dt t = [TUnsub h]"

text \<open>
  A channel is well formed when its array holds no reference twice and every reference in
  it has been allocated. \<open>extends A c c'\<close>: from \<open>c\<close> to \<open>c'\<close> references were only
  allocated, the objects allocated in \<open>c\<close> are unchanged except those in \<open>A\<close>, no reference
  allocated in \<open>c\<close> was put into the array, and well-formedness was kept.
\<close>

definition wf_channel :: "channel \<Rightarrow> bool" where
  "wf_channel c = (distinct (actions c) \<and> (\<forall>a \<in> set (actions c). a < nextRef c))"

definition extends :: "nat set \<Rightarrow> channel \<Rightarrow> channel \<Rightarrow> bool" where
  "extends A c c' =
     (nextRef c \<le> nextRef c'
      \<and> (\<forall>b. b < nextRef c \<longrightarrow> b \<notin> A \<longrightarrow> heap c' b = heap c b)
      \<and> (\<forall>b. b < nextRef c \<longrightarrow> b \<in> set (actions c') \<longrightarrow> b \<in> set (actions c))
      \<and> (wf_channel c \<longrightarrow> wf_channel c'))"

text \<open>
  The invocations by \<open>step\<close> in the log, and those that \<open>c'\<close> has logged beyond those
  of \<open>c\<close>.
\<close>

fun is_fired :: "call \<Rightarrow> bool" where
  "is_fired (Fired a) = True"
| "is_fired (Immediate f) = False"

definition fired_calls :: "channel \<Rightarrow> call list" where
  "fired_calls c = filter is_fired (calls c)"

definition new_calls :: "channel \<Rightarrow> channel \<Rightarrow> call list" where
  "new_calls c c' = drop (length (fired_calls c)) (fired_calls c')"

text \<open>
  How many times one \<open>step\<close> with delta \<open>dt\<close> fires an action that it finds as \<open>obj\<close>, and
  the object it leaves.
\<close>

definition due_count :: "real \<Rightarrow> scheduled \<Rightarrow> nat" where
  "due_count dt obj =
     (case obj of
        PeriodicAction nm ival e0 f cu \<Rightarrow>
          if ival \<le> 0 then 1
          else if e0 + dt \<ge> ival then (if cu then nat \<lfloor>(e0 + dt) / ival\<rfloor> else 1)
          else 0
      | OnceAction nm dl e0 f \<Rightarrow> if e0 + dt \<ge> dl then 1 else 0)"

definition stepped :: "real \<Rightarrow> scheduled \<Rightarrow> scheduled" where
  "stepped dt obj =
     (case obj of
        PeriodicAction nm ival e0 f cu \<Rightarrow>
          if ival \<le> 0 then PeriodicAction nm ival (e0 + dt) f cu
          else if e0 + dt \<ge> ival
          then (if cu
                then PeriodicAction nm ival (e0 + dt - of_int \<lfloor>(e0 + dt) / ival\<rfloor> * ival) f cu
                else PeriodicAction nm ival (e0 + dt - ival) f cu)
          else PeriodicAction nm ival (e0 + dt) f cu
      | OnceAction nm dl e0 f \<Rightarrow> OnceAction nm dl (e0 + dt) f)"

definition fires_of :: "channel \<Rightarrow> real \<Rightarrow> nat \<Rightarrow> call list" where
  "fires_of c dt a =
     (case heap c a of
        None \<Rightarrow> []
      | Some obj \<Rightarrow> replicate (due_count dt obj) (Fired a))"

text \<open>
  Example callbacks and channels. \<open>busy_callbacks\<close>: every callback schedules a periodic
  action with \<open>immediate\<close> (the immediate call throws) and a one-shot, and then throws. \<open>self_cancelling\<close>: every callback cancels the actions named \<open>a\<close>.
  \<open>rescheduling\<close>: every callback schedules itself again as a one-shot.
\<close>

definition quiet_callbacks :: callbacks where
  "quiet_callbacks f c = []"

definition busy_callbacks :: callbacks where
  "busy_callbacks f c = [AEvery 40 1 None None (Some [AThrow]), AOnce 50 1 None, AThrow]"

definition self_cancelling :: callbacks where
  "self_cancelling f c = [ACancel (Some ''a'')]"

definition rescheduling :: callbacks where
  "rescheduling f c = [AOnce 1000 f None]"

definition ch_frameTick :: channel where
  "ch_frameTick = start (every_push 200 0 (Some ''frameTick'') None channel0)"

definition ch_every_frame :: channel where
  "ch_every_frame = start (every_push 0 0 None None channel0)"

definition ch_self :: channel where
  "ch_self = start (every_push 30 0 (Some ''a'') None channel0)"

definition ch_once :: channel where
  "ch_once = start (once 1000 0 None channel0)"

definition ch_named :: channel where
  "ch_named = every_push 100 1 (Some ''x'') None (every_push 100 0 (Some '''') None channel0)"

definition ch_oneshot :: channel where
  "ch_oneshot = start (once 1000 0 None channel0)"

definition ch_no_catch_up :: channel where
  "ch_no_catch_up = start (every_push 200 0 None (Some False) channel0)"

definition ch_two :: channel where
  "ch_two = start (every_push 0 1 (Some ''a'') None (every_push 0 0 None None channel0))"

section \<open>Properties\<close>

subsection \<open>The camera viewport\<close>

text \<open>
  Claim C10. For a camera whose follow mode is \<open>none\<close>, \<open>updateFollow\<close> called without an
  entity resets the stored world offset to the origin: the test for a missing entity comes
  before the test of the follow mode.
\<close>

theorem C10_no_entity_resets_offset:
  "follow cam = FollowNone \<Longrightarrow>
     updateFollow cam None = Inr (cam\<lparr>camX := 0, camY := 0\<rparr>, None)"
  by (simp add: updateFollow_def)

theorem C10_no_entity_resets_offset_witness:
  "follow cam_none = FollowNone \<and> camX cam_none = 30 \<and> camY cam_none = 40 \<and>
   (\<exists>cam'. updateFollow cam_none None = Inr (cam', None) \<and> camX cam' = 0 \<and> camY cam' = 0)"
  using C10_no_entity_resets_offset [of cam_none] by (simp add: cam_none_def)

lemma ensureFrameSize_again:
  assumes "ensureFrameSize meta = Inr (sz, meta')"
  shows "ensureFrameSize meta' = Inr (sz, meta')"
proof (cases "frameSize meta")
  case None
  show ?thesis
  proof (cases "imageSize meta")
    case n: None
    then show ?thesis using assms None by (simp add: ensureFrameSize_def)
  next
    case (Some img)
    obtain imgW imgH where "img = (imgW, imgH)" by (cases img)
    then show ?thesis
      using assms None Some by (auto simp add: ensureFrameSize_def Let_def)
  qed
next
  case (Some fs)
  obtain w h where fs: "fs = (w, h)" by (cases fs)
  show ?thesis
  proof (cases "w > 0 \<and> h > 0")
    case True
    then show ?thesis using assms Some fs by (auto simp add: ensureFrameSize_def)
  next
    case False
    show ?thesis
    proof (cases "imageSize meta")
      case None
      then show ?thesis using assms Some fs False by (auto simp add: ensureFrameSize_def)
    next
      case i: (Some img)
      obtain imgW imgH where "img = (imgW, imgH)" by (cases img)
      then show ?thesis
        using assms Some fs False i by (auto simp add: ensureFrameSize_def Let_def)
    qed
  qed
qed

lemma frameRect_size:
  assumes "ensureFrameSize meta = Inr ((fw, fh), meta')"
  shows "\<exists>r. frameRect meta fr = Inr (r, meta') \<and> sw r = fw \<and> sh r = fh"
  using assms by (simp add: frameRect_def Let_def)

lemma set_sheet_twice: "set_sheet m (set_sheet m' v) = set_sheet m v"
  by (simp add: set_sheet_def)

lemma set_sheet_fields:
  "sheet (view_actor (set_sheet m v)) = m"
  "state (view_actor (set_sheet m v)) = state (view_actor v)"
  "scale (set_sheet m v) = scale v"
  by (simp_all add: set_sheet_def)

lemma ensureFrameSize_view_at:
  "ensureFrameSize (sheet (view_actor (view_at px py)))
     = Inr ((16, 16), sheet (view_actor (view_at px py)))"
  by (simp add: ensureFrameSize_def view_at_def)

lemma ensureFrameSize_view_topleft:
  "ensureFrameSize (sheet (view_actor (view_topleft px py)))
     = Inr ((8, 8), (sheet (view_actor (view_topleft px py)))\<lparr>frameSize := Some (8, 8)\<rparr>)"
  by (simp add: ensureFrameSize_def view_topleft_def to_int32_def Let_def)

text \<open>
  Claim C6. Let the camera be in deadzone mode with half-extents \<open>(dx, dy)\<close> and let the
  frame size \<open>(fw, fh)\<close> of the entity be available. The centre \<open>(cx, cy)\<close> of the entity
  is its position when it is anchored at the centre, and its position plus half its rendered
  size (frame size times scale) when it is anchored at the top-left corner. The viewport
  centre \<open>(vcx, vcy)\<close> is the stored offset plus half the logical size (the base size when
  there is one, the rendered size plus twice the padding otherwise). Then \<open>updateFollow\<close>
  succeeds; it leaves the camera as it is when the centre of the entity lies inside the
  rectangle of half-size \<open>(dx, dy)\<close> around the viewport centre; for non-negative
  half-extents it shifts the offset on each axis by exactly the overshoot past the edge of the
  deadzone (zero inside); and it changes nothing of the camera but the offset.
\<close>

theorem C6_deadzone:
  assumes "follow cam = FollowDeadzone"
    and "ensureFrameSize (sheet (view_actor v)) = Inr ((fw, fh), meta')"
    and "deadzone cam = (dx, dy)"
    and "cx = (if view_anchor v = Center then state_x (state (view_actor v))
               else state_x (state (view_actor v)) + fw * scale v / 2)"
    and "cy = (if view_anchor v = Center then state_y (state (view_actor v))
               else state_y (state (view_actor v)) + fh * scale v / 2)"
    and "(vw, vh) = (case baseSize cam of
                       Some (FixedSize sz) \<Rightarrow> sz
                     | Some (ComputedSize g) \<Rightarrow> g ()
                     | None \<Rightarrow> (fw * scale v + fst (padding cam) * 2,
                                fh * scale v + snd (padding cam) * 2))"
    and "vcx = camX cam + vw / 2" and "vcy = camY cam + vh / 2"
  shows "\<exists>cam'. updateFollow cam (Some v) = Inr (cam', Some (set_sheet meta' v))
           \<and> (\<bar>cx - vcx\<bar> \<le> dx \<and> \<bar>cy - vcy\<bar> \<le> dy \<longrightarrow> cam' = cam)
           \<and> (0 \<le> dx \<longrightarrow> camX cam' = camX cam + overshoot cx vcx dx)
           \<and> (0 \<le> dy \<longrightarrow> camY cam' = camY cam + overshoot cy vcy dy)
           \<and> cam' = cam\<lparr>camX := camX cam', camY := camY cam'\<rparr>"
proof -
  let ?v1 = "set_sheet meta' v"
  obtain r where r: "frameRect (sheet (view_actor v)) (state_frame (state (view_actor v))) = Inr (r, meta')"
    "sw r = fw" "sh r = fh"
    using frameRect_size [OF assms(2)] by blast
  have sc: "sprite_center v = Inr ((cx, cy), ?v1)"
    using r assms(4,5) by (simp add: sprite_center_def Let_def)
  obtain r' where r': "frameRect meta' (state_frame (state (view_actor v))) = Inr (r', meta')"
    "sw r' = fw" "sh r' = fh"
    using frameRect_size [OF ensureFrameSize_again [OF assms(2)]] by blast
  have gl: "getLogicalSize cam (Some ?v1) = Inr ((vw, vh), Some ?v1)"
  proof (cases "baseSize cam")
    case None
    then show ?thesis
      using r' assms(6)
      by (simp add: getLogicalSize_def set_sheet_fields set_sheet_twice Let_def)
  next
    case (Some b)
    then show ?thesis
      using assms(6) by (cases b) (simp_all add: getLogicalSize_def Let_def split: prod.splits)
  qed
  show ?thesis
    using assms(1,3,7,8) sc gl
    by (auto simp add: updateFollow_def Let_def overshoot_def)
qed

theorem C6_deadzone_witness:
  "(\<exists>cam'. updateFollow cam_dz (Some (view_at 110 105)) = Inr (cam', Some (view_at 110 105))
       \<and> cam' = cam_dz)
   \<and> (\<exists>cam'. updateFollow cam_dz (Some (view_at 125 100)) = Inr (cam', Some (view_at 125 100))
       \<and> camX cam' = camX cam_dz + 5 \<and> camY cam' = camY cam_dz)
   \<and> view_anchor (view_topleft 115 100) = TopLeft
   \<and> (\<exists>cam' view'. updateFollow cam_derived (Some (view_topleft 115 100)) = Inr (cam', view')
       \<and> camX cam' = camX cam_derived + 3 \<and> camY cam' = camY cam_derived)"
proof -
  have f: "follow cam_dz = FollowDeadzone" and d: "deadzone cam_dz = (20, 20)"
    and x: "100 = camX cam_dz + 200 / 2" and y: "100 = camY cam_dz + 200 / 2"
    and z: "(200, 200) = (case baseSize cam_dz of
                       Some (FixedSize sz) \<Rightarrow> sz
                     | Some (ComputedSize g) \<Rightarrow> g ()
                     | None \<Rightarrow> (16 * scale (view_at px py) + fst (padding cam_dz) * 2,
                                16 * scale (view_at px py) + snd (padding cam_dz) * 2))"
    for px py
    by (simp_all add: cam_dz_def)
  have c: "px = (if view_anchor (view_at px py) = Center
                 then state_x (state (view_actor (view_at px py)))
                 else state_x (state (view_actor (view_at px py))) + 16 * scale (view_at px py) / 2)"
    "py = (if view_anchor (view_at px py) = Center
                 then state_y (state (view_actor (view_at px py)))
                 else state_y (state (view_actor (view_at px py))) + 16 * scale (view_at px py) / 2)"
    for px py
    by (simp_all add: view_at_def)
  have s: "set_sheet (sheet (view_actor (view_at px py))) (view_at px py) = view_at px py" for px py
    by (simp add: set_sheet_def)
  from C6_deadzone [OF f ensureFrameSize_view_at d c z x y, of 110 105]
  have a: "\<exists>cam'. updateFollow cam_dz (Some (view_at 110 105)) = Inr (cam', Some (view_at 110 105))
       \<and> cam' = cam_dz"
    by (simp add: s)
  from C6_deadzone [OF f ensureFrameSize_view_at d c z x y, of 125 100]
  have b: "\<exists>cam'. updateFollow cam_dz (Some (view_at 125 100)) = Inr (cam', Some (view_at 125 100))
       \<and> camX cam' = camX cam_dz + 5 \<and> camY cam' = camY cam_dz"
    by (auto simp add: s overshoot_def)
  have f': "follow cam_derived = FollowDeadzone" and d': "deadzone cam_derived = (20, 20)"
    and x': "100 = camX cam_derived + 200 / 2" and y': "100 = camY cam_derived + 200 / 2"
    and z': "(200, 200) = (case baseSize cam_derived of
                       Some (FixedSize sz) \<Rightarrow> sz
                     | Some (ComputedSize g) \<Rightarrow> g ()
                     | None \<Rightarrow> (8 * scale (view_topleft 115 100) + fst (padding cam_derived) * 2,
                                8 * scale (view_topleft 115 100) + snd (padding cam_derived) * 2))"
    by (simp_all add: cam_derived_def view_topleft_def)
  have c': "123 = (if view_anchor (view_topleft 115 100) = Center
                 then state_x (state (view_actor (view_topleft 115 100)))
                 else state_x (state (view_actor (view_topleft 115 100)))
                        + 8 * scale (view_topleft 115 100) / 2)"
    "108 = (if view_anchor (view_topleft 115 100) = Center
                 then state_y (state (view_actor (view_topleft 115 100)))
                 else state_y (state (view_actor (view_topleft 115 100)))
                        + 8 * scale (view_topleft 115 100) / 2)"
    by (simp_all add: view_topleft_def)
  from C6_deadzone [OF f' ensureFrameSize_view_topleft d' c' z' x' y']
  have e: "\<exists>cam' view'. updateFollow cam_derived (Some (view_topleft 115 100)) = Inr (cam', view')
       \<and> camX cam' = camX cam_derived + 3 \<and> camY cam' = camY cam_derived"
    by (auto simp add: overshoot_def)
  have t: "view_anchor (view_topleft 115 100) = TopLeft"
    by (simp add: view_topleft_def)
  from a b t e show ?thesis by blast
qed

subsection \<open>The ticker\<close>

lemma try_catch_eq [simp]: "try_catch r = Ok (state_of r)"
  by (cases r) (simp_all add: try_catch_def)

lemma onTick_frame [simp]:
  "delivered (onTick h s) = delivered s" "accTime (onTick h s) = accTime s"
  "lastTs (onTick h s) = lastTs s" "listeners (onTick h s) = set_add h (listeners s)"
  by (simp_all add: onTick_def requestAnimationFrame_def Let_def)

lemma unsub_frame [simp]:
  "delivered (unsub h s) = delivered s" "accTime (unsub h s) = accTime s"
  "lastTs (unsub h s) = lastTs s" "pending (unsub h s) = pending s"
  "rafId (unsub h s) = rafId s" "nextRaf (unsub h s) = nextRaf s"
  "listeners (unsub h s) = removeAll h (listeners s)"
  by (simp_all add: unsub_def set_delete_def)

lemma stopTicker_frame [simp]:
  "delivered (stopTicker s) = delivered s" "accTime (stopTicker s) = accTime s"
  "listeners (stopTicker s) = listeners s" "lastTs (stopTicker s) = None"
  "rafId (stopTicker s) = None"
  by (simp_all add: stopTicker_def cancelAnimationFrame_def Let_def split: option.splits)

lemma run_cmds_frame [simp]:
  "delivered (state_of (run_cmds cs s)) = delivered s"
  "accTime (state_of (run_cmds cs s)) = accTime s"
  by (induction cs s rule: run_cmds.induct) simp_all

lemma invoke_frame [simp]:
  "delivered (state_of (invoke H h dt t s)) = delivered s @ [(h, dt, t)]"
  "accTime (state_of (invoke H h dt t s)) = accTime s"
  by (simp_all add: invoke_def Let_def)

lemma call_listeners_ok: "call_listeners H dt hs s = Ok (state_of (call_listeners H dt hs s))"
  by (induction hs arbitrary: s) simp_all

lemma call_listeners_frame:
  "delivered (state_of (call_listeners H dt hs s)) = delivered s @ map (\<lambda>h. (h, dt, accTime s)) hs
   \<and> accTime (state_of (call_listeners H dt hs s)) = accTime s"
  by (induction hs arbitrary: s) simp_all

lemma loop_eq:
  "loop H ts s =
     (let s4 = after_listeners H ts s
      in if listeners s4 \<noteq> []
         then Ok (s4\<lparr>pending := pending s4 @ [nextRaf s4], nextRaf := Suc (nextRaf s4),
                    rafId := Some (nextRaf s4)\<rparr>)
         else Ok (s4\<lparr>lastTs := None\<rparr>))"
proof -
  let ?s3 = "s\<lparr>rafId := None, lastTs := Some ts, accTime := accTime s + pulse_dt ts s\<rparr>"
  have c: "call_listeners H (pulse_dt ts s) (listeners s) ?s3 = Ok (after_listeners H ts s)"
    unfolding after_listeners_def by (rule call_listeners_ok)
  have e: "listeners s = [] \<Longrightarrow> after_listeners H ts s = ?s3"
    by (simp add: after_listeners_def)
  show ?thesis
  proof (cases "listeners s = []")
    case True
    then show ?thesis
      using e by (simp add: loop_def Let_def pulse_dt_def)
  next
    case False
    then show ?thesis
      using c by (simp add: loop_def Let_def pulse_dt_def requestAnimationFrame_def)
  qed
qed

lemma after_listeners_frame:
  "delivered (after_listeners H ts s) =
     delivered s @ map (\<lambda>h. (h, pulse_dt ts s, accTime s + pulse_dt ts s)) (listeners s)"
  "accTime (after_listeners H ts s) = accTime s + pulse_dt ts s"
  by (simp_all add: after_listeners_def call_listeners_frame)

lemma loop_ok: "loop H ts s = Ok (state_of (loop H ts s))"
  by (simp add: loop_eq Let_def)

lemma loop_delivered:
  "delivered (state_of (loop H ts s)) =
     delivered s @ map (\<lambda>h. (h, pulse_dt ts s, accTime s + pulse_dt ts s)) (listeners s)"
  by (simp add: loop_eq Let_def after_listeners_frame)

lemma loop_scheduled:
  "listeners (state_of (loop H ts s)) \<noteq> [] \<Longrightarrow>
     \<exists>i. rafId (state_of (loop H ts s)) = Some i \<and> i \<in> set (pending (state_of (loop H ts s)))"
  by (simp add: loop_eq Let_def split: if_splits)

text \<open>
  Claim C8. A pulse returns normally whatever its callbacks do; it invokes every handler of
  the snapshot (the listeners at the start of the pulse), in order, each with the delta and
  accumulated time of the pulse, also after a handler has thrown; and when listeners remain
  afterwards, the next frame is requested.
\<close>

theorem C8_callback_exceptions_isolated:
  "\<exists>s'. loop H ts s = Ok s'
        \<and> new_deliveries s s' = map (\<lambda>h. (h, pulse_dt ts s, accTime s + pulse_dt ts s)) (listeners s)
        \<and> (listeners s' \<noteq> [] \<longrightarrow> (\<exists>i. rafId s' = Some i \<and> i \<in> set (pending s')))"
proof (intro exI conjI)
  show "loop H ts s = Ok (state_of (loop H ts s))"
    by (rule loop_ok)
  show "new_deliveries s (state_of (loop H ts s)) =
          map (\<lambda>h. (h, pulse_dt ts s, accTime s + pulse_dt ts s)) (listeners s)"
    by (simp add: new_deliveries_def loop_delivered)
  show "listeners (state_of (loop H ts s)) \<noteq> [] \<longrightarrow>
          (\<exists>i. rafId (state_of (loop H ts s)) = Some i \<and> i \<in> set (pending (state_of (loop H ts s))))"
    using loop_scheduled by blast
qed

theorem C8_callback_exceptions_isolated_witness:
  "invoke throwing_handlers 0 16 48 two_listeners
     = Exn (two_listeners\<lparr>delivered := [(0, 16, 48)]\<rparr>)
   \<and> (\<exists>s'. loop throwing_handlers 1016 two_listeners = Ok s'
        \<and> new_deliveries two_listeners s' = [(0, 16, 48), (1, 16, 48)]
        \<and> listeners s' \<noteq> [] \<and> rafId s' = Some 1 \<and> pending s' = [1])"
proof -
  have dt: "pulse_dt 1016 two_listeners = 16"
    by (simp add: pulse_dt_def two_listeners_def MAX_DT_def)
  have a: "invoke throwing_handlers 0 16 48 two_listeners
     = Exn (two_listeners\<lparr>delivered := [(0, 16, 48)]\<rparr>)"
    by (simp add: invoke_def Let_def throwing_handlers_def two_listeners_def)
  have l: "loop throwing_handlers 1016 two_listeners =
     Ok (two_listeners\<lparr>rafId := Some 1, lastTs := Some 1016, accTime := 48,
           pending := [1], nextRaf := 2, delivered := [(0, 16, 48), (1, 16, 48)]\<rparr>)"
    by (simp add: loop_def Let_def invoke_def throwing_handlers_def two_listeners_def
        MAX_DT_def requestAnimationFrame_def)
  from C8_callback_exceptions_isolated [of throwing_handlers 1016 two_listeners]
  obtain s' where s': "loop throwing_handlers 1016 two_listeners = Ok s'"
    "new_deliveries two_listeners s' = 
      map (\<lambda>h. (h, pulse_dt 1016 two_listeners, accTime two_listeners + pulse_dt 1016 two_listeners)) (listeners two_listeners)"
    "listeners s' \<noteq> [] \<longrightarrow> (\<exists>i. rafId s' = Some i \<and> i \<in> set (pending s'))"
    by blast
  from s'(1) l have e: "s' = two_listeners\<lparr>rafId := Some 1, lastTs := Some 1016, accTime := 48,
           pending := [1], nextRaf := 2, delivered := [(0, 16, 48), (1, 16, 48)]\<rparr>" by simp
  have "new_deliveries two_listeners s' = [(0, 16, 48), (1, 16, 48)]"
    using s'(2) dt by (simp add: two_listeners_def)
  moreover have "listeners s' \<noteq> [] \<and> rafId s' = Some 1 \<and> pending s' = [1]"
    using e by (simp add: two_listeners_def)
  ultimately show ?thesis using a s'(1) by blast
qed

lemma onTick_twice: "onTick h (onTick h s) = onTick h s"
  by (simp add: onTick_def set_add_def requestAnimationFrame_def Let_def)

lemma unsub_twice: "unsub h (unsub h s) = unsub h s"
  by (simp add: unsub_def set_delete_def)

text \<open>
  Claim C9, as stated, fails: the listeners are a \<open>Set\<close> of functions, so subscribing the
  same function twice registers it once. After one of the two unsubscribe functions has been
  called no listener is left, and the next pulse invokes nothing.
\<close>

theorem C9_counterexample:
  "listeners (unsub 7 (onTick 7 (onTick 7 ticker0))) = []
   \<and> pending (unsub 7 (onTick 7 (onTick 7 ticker0))) = [0]
   \<and> delivered (state_of (frame idle_handlers 16 (unsub 7 (onTick 7 (onTick 7 ticker0))))) = []"
  by (simp add: frame_def loop_def onTick_def unsub_def set_add_def set_delete_def ticker0_def
      Let_def requestAnimationFrame_def MAX_DT_def)

text \<open>
  Claim C9, amended. Subscribing the same callback function a second time changes nothing:
  there is one registration. Either unsubscribe function removes the callback from the
  listeners, a pulse invokes exactly the listeners, so the callback is no longer invoked; and
  calling an unsubscribe function again right after is a no-op.
\<close>

theorem C9_same_callback_single_registration:
  "onTick h (onTick h s) = onTick h s
   \<and> h \<notin> set (listeners (unsub h (onTick h (onTick h s))))
   \<and> map fst (new_deliveries (unsub h (onTick h (onTick h s)))
                 (state_of (loop H ts (unsub h (onTick h (onTick h s))))))
       = listeners (unsub h (onTick h (onTick h s)))
   \<and> unsub h (unsub h s) = unsub h s"
  by (simp add: onTick_twice unsub_twice new_deliveries_def loop_delivered comp_def)

text \<open>
  An unsubscribe function that is called again after its callback has been subscribed anew
  removes the new registration.
\<close>

lemma stale_unsubscribe_removes_new_registration:
  "listeners (unsub h (onTick h (unsub h (onTick h s)))) = removeAll h (listeners s)"
  by (simp add: set_add_def)

lemma pulse_dt_le: "pulse_dt ts s \<le> 100"
  by (simp add: pulse_dt_def MAX_DT_def)

lemma pulse_dt_ge: "(\<And>l. lastTs s = Some l \<Longrightarrow> l \<le> ts) \<Longrightarrow> 0 \<le> pulse_dt ts s"
  by (cases "lastTs s") (simp_all add: pulse_dt_def MAX_DT_def)

lemma pulse_dt_idle: "lastTs s = None \<Longrightarrow> pulse_dt ts s = 0"
  by (simp add: pulse_dt_def MAX_DT_def)

lemma run_cmds_lastTs:
  "lastTs (state_of (run_cmds cs s)) = None \<or> lastTs (state_of (run_cmds cs s)) = lastTs s"
proof (induction cs s rule: run_cmds.induct)
  case (4 cs s)
  then show ?case by (metis run_cmds.simps(4) stopTicker_frame(4))
qed auto

lemma call_listeners_lastTs:
  "lastTs (state_of (call_listeners H dt hs s)) = None
   \<or> lastTs (state_of (call_listeners H dt hs s)) = lastTs s"
proof (induction hs arbitrary: s)
  case Nil
  then show ?case by simp
next
  case (Cons h hs)
  let ?s1 = "state_of (invoke H h dt (accTime s) s)"
  have "lastTs ?s1 = None \<or> lastTs ?s1 = lastTs s"
    using run_cmds_lastTs [of "H h (s\<lparr>delivered := delivered s @ [(h, dt, accTime s)]\<rparr>) dt (accTime s)"
        "s\<lparr>delivered := delivered s @ [(h, dt, accTime s)]\<rparr>"]
    by (simp add: invoke_def Let_def)
  with Cons.IH [of ?s1] show ?case by auto
qed

lemma loop_lastTs:
  "lastTs (state_of (loop H ts s)) = None \<or> lastTs (state_of (loop H ts s)) = Some ts"
  using call_listeners_lastTs [of H "pulse_dt ts s" "listeners s"
      "s\<lparr>rafId := None, lastTs := Some ts, accTime := accTime s + pulse_dt ts s\<rparr>"]
  by (auto simp add: loop_eq Let_def after_listeners_def)

lemma loop_deliveries:
  assumes "\<forall>d \<in> set (delivered s). P (delta_of d)" and "P (pulse_dt ts s)"
  shows "\<forall>d \<in> set (delivered (state_of (loop H ts s))). P (delta_of d)"
  using assms by (auto simp add: loop_delivered delta_of_def)

lemma frame_callbacks_ok:
  "run_frame_callbacks H ts ids s = Ok (state_of (run_frame_callbacks H ts ids s))"
proof (induction ids arbitrary: s)
  case Nil
  then show ?case by simp
next
  case (Cons i ids)
  obtain s' where e: "loop H ts (s\<lparr>pending := removeAll i (pending s)\<rparr>) = Ok s'"
    using loop_ok by blast
  show ?case
    using Cons.IH e by (cases "i \<in> set (pending s)") simp_all
qed

lemma frame_callbacks_step:
  "state_of (run_frame_callbacks H ts (i # ids) s) =
     (if i \<in> set (pending s)
      then state_of (run_frame_callbacks H ts ids
             (state_of (loop H ts (s\<lparr>pending := removeAll i (pending s)\<rparr>))))
      else state_of (run_frame_callbacks H ts ids s))"
proof -
  obtain s' where e: "loop H ts (s\<lparr>pending := removeAll i (pending s)\<rparr>) = Ok s'"
    using loop_ok by blast
  then show ?thesis by simp
qed

lemma frame_callbacks_upper:
  "\<forall>d \<in> set (delivered s). delta_of d \<le> 100 \<Longrightarrow>
   \<forall>d \<in> set (delivered (state_of (run_frame_callbacks H ts ids s))). delta_of d \<le> 100"
proof (induction ids arbitrary: s)
  case Nil
  then show ?case by simp
next
  case (Cons i ids)
  let ?s = "s\<lparr>pending := removeAll i (pending s)\<rparr>"
  have "\<forall>d \<in> set (delivered (state_of (loop H ts ?s))). delta_of d \<le> 100"
    using Cons.prems by (intro loop_deliveries) (simp_all add: pulse_dt_le)
  then show ?case
    using Cons by (simp only: frame_callbacks_step split: if_splits) auto
qed

lemma frame_callbacks_lower:
  assumes "\<forall>d \<in> set (delivered s). 0 \<le> delta_of d" and "\<And>l. lastTs s = Some l \<Longrightarrow> l \<le> ts"
  shows "(\<forall>d \<in> set (delivered (state_of (run_frame_callbacks H ts ids s))). 0 \<le> delta_of d)
       \<and> (\<forall>l. lastTs (state_of (run_frame_callbacks H ts ids s)) = Some l \<longrightarrow> l \<le> ts)"
  using assms
proof (induction ids arbitrary: s)
  case Nil
  then show ?case by simp
next
  case (Cons i ids)
  let ?s = "s\<lparr>pending := removeAll i (pending s)\<rparr>"
  let ?s' = "state_of (loop H ts ?s)"
  have "0 \<le> pulse_dt ts ?s"
    using Cons.prems(2) by (intro pulse_dt_ge) simp
  then have d: "\<forall>d \<in> set (delivered ?s'). 0 \<le> delta_of d"
    using Cons.prems(1) by (intro loop_deliveries) simp_all
  have l: "\<And>l. lastTs ?s' = Some l \<Longrightarrow> l \<le> ts"
    using loop_lastTs [of H ts ?s] by auto
  have ih1: "(\<forall>d \<in> set (delivered (state_of (run_frame_callbacks H ts ids ?s'))). 0 \<le> delta_of d)
       \<and> (\<forall>l. lastTs (state_of (run_frame_callbacks H ts ids ?s')) = Some l \<longrightarrow> l \<le> ts)"
    using d l by (intro Cons.IH) blast+
  have ih2: "(\<forall>d \<in> set (delivered (state_of (run_frame_callbacks H ts ids s))). 0 \<le> delta_of d)
       \<and> (\<forall>l. lastTs (state_of (run_frame_callbacks H ts ids s)) = Some l \<longrightarrow> l \<le> ts)"
    using Cons.prems by (intro Cons.IH) blast+
  show ?case
    using ih1 ih2 by (simp only: frame_callbacks_step split: if_splits) blast
qed

lemma apply_event_ok: "apply_event H e s = Ok (state_of (apply_event H e s))"
  by (cases e) (simp_all add: frame_def frame_callbacks_ok [symmetric])

lemma exec_ok: "exec H es s = Ok (state_of (exec H es s))"
proof (induction es arbitrary: s)
  case Nil
  then show ?case by simp
next
  case (Cons e es)
  obtain s' where e: "apply_event H e s = Ok s'"
    using apply_event_ok by blast
  then show ?case
    using Cons.IH by simp
qed

lemma exec_step:
  "state_of (exec H (e # es) s) = state_of (exec H es (state_of (apply_event H e s)))"
proof -
  obtain s' where e: "apply_event H e s = Ok s'"
    using apply_event_ok by blast
  then show ?thesis by simp
qed

lemma exec_upper:
  "\<forall>d \<in> set (delivered s). delta_of d \<le> 100 \<Longrightarrow>
   \<forall>d \<in> set (delivered (state_of (exec H es s))). delta_of d \<le> 100"
proof (induction es arbitrary: s)
  case Nil
  then show ?case by simp
next
  case (Cons e es)
  have "\<forall>d \<in> set (delivered (state_of (apply_event H e s))). delta_of d \<le> 100"
    using Cons.prems by (cases e) (simp_all add: frame_def frame_callbacks_upper)
  from Cons.IH [OF this] show ?case
    by (simp only: exec_step)
qed

lemma exec_lower:
  assumes "sorted (timestamps es)"
    and "\<forall>d \<in> set (delivered s). 0 \<le> delta_of d"
    and "\<And>l ts. lastTs s = Some l \<Longrightarrow> ts \<in> set (timestamps es) \<Longrightarrow> l \<le> ts"
  shows "\<forall>d \<in> set (delivered (state_of (exec H es s))). 0 \<le> delta_of d"
  using assms
proof (induction es arbitrary: s)
  case Nil
  then show ?case by simp
next
  case (Cons e es)
  let ?s' = "state_of (apply_event H e s)"
  have srt: "sorted (timestamps es)"
    using Cons.prems(1) by (cases e) simp_all
  have "(\<forall>d \<in> set (delivered ?s'). 0 \<le> delta_of d)
      \<and> (\<forall>l ts. lastTs ?s' = Some l \<longrightarrow> ts \<in> set (timestamps es) \<longrightarrow> l \<le> ts)"
  proof (cases e)
    case (Frame ts)
    have "\<And>l. lastTs s = Some l \<Longrightarrow> l \<le> ts"
      using Cons.prems(3) Frame by simp
    from frame_callbacks_lower [OF Cons.prems(2) this, of H "pending s"]
    show ?thesis
      using Frame Cons.prems(1) by (fastforce simp add: frame_def)
  qed (use Cons.prems in auto)
  then show ?case
    using Cons.IH [OF srt, of ?s'] by (simp only: exec_step) blast
qed




lemma onTick_one_slot: "one_slot s \<Longrightarrow> one_slot (onTick h s)"
  by (cases "rafId s") (simp_all add: one_slot_def onTick_def requestAnimationFrame_def Let_def)

lemma unsub_one_slot: "one_slot s \<Longrightarrow> one_slot (unsub h s)"
  by (simp add: one_slot_def)

lemma stopTicker_one_slot: "one_slot s \<Longrightarrow> one_slot (stopTicker s)"
  by (cases "rafId s") (simp_all add: one_slot_def stopTicker_def cancelAnimationFrame_def)

lemma stopTicker_quiet:
  "rafId s = None \<Longrightarrow> pending (stopTicker s) = pending s"
  by (simp add: stopTicker_def)

lemma run_cmds_quiet:
  "\<forall>c \<in> set cs. \<not> is_subscribe c \<Longrightarrow> rafId s = None \<Longrightarrow>
     rafId (state_of (run_cmds cs s)) = None \<and> pending (state_of (run_cmds cs s)) = pending s"
proof (induction cs s rule: run_cmds.induct)
  case (4 cs s)
  then show ?case by (simp add: stopTicker_quiet)
qed simp_all

lemma invoke_quiet:
  assumes "no_resubscribe H" and "rafId s = None"
  shows "rafId (state_of (invoke H h dt t s)) = None
       \<and> pending (state_of (invoke H h dt t s)) = pending s"
proof -
  let ?s1 = "s\<lparr>delivered := delivered s @ [(h, dt, t)]\<rparr>"
  have "\<forall>c \<in> set (H h ?s1 dt t). \<not> is_subscribe c"
    using assms(1) by (simp add: no_resubscribe_def)
  from run_cmds_quiet [OF this, of ?s1] assms(2) show ?thesis
    by (simp add: invoke_def Let_def)
qed

lemma call_listeners_quiet:
  assumes "no_resubscribe H"
  shows "rafId s = None \<Longrightarrow>
     rafId (state_of (call_listeners H dt hs s)) = None
     \<and> pending (state_of (call_listeners H dt hs s)) = pending s"
proof (induction hs arbitrary: s)
  case Nil
  then show ?case by simp
next
  case (Cons h hs)
  from invoke_quiet [OF assms Cons.prems, of h dt "accTime s"]
  have q: "rafId (state_of (invoke H h dt (accTime s) s)) = None"
    "pending (state_of (invoke H h dt (accTime s) s)) = pending s"
    by simp_all
  from Cons.IH [OF q(1)] q(2) show ?case by simp
qed

lemma after_listeners_quiet:
  assumes "no_resubscribe H"
  shows "rafId (after_listeners H ts s) = None \<and> pending (after_listeners H ts s) = pending s"
  using call_listeners_quiet [OF assms, of
      "s\<lparr>rafId := None, lastTs := Some ts, accTime := accTime s + pulse_dt ts s\<rparr>"
      "pulse_dt ts s" "listeners s"]
  by (simp add: after_listeners_def)

lemma loop_quiet:
  assumes "no_resubscribe H" and "pending s = []"
  shows "one_slot (state_of (loop H ts s))"
    and "rafId (state_of (loop H ts s)) = None \<longleftrightarrow> listeners (state_of (loop H ts s)) = []"
  using after_listeners_quiet [OF assms(1), of ts s] assms(2)
  by (simp_all add: loop_eq Let_def one_slot_def)

lemma frame_idle: "pending s = [] \<Longrightarrow> frame H ts s = Ok s"
  by (simp add: frame_def)

lemma frame_single:
  "pending s = [i] \<Longrightarrow> state_of (frame H ts s) = state_of (loop H ts (s\<lparr>pending := []\<rparr>))"
  by (simp add: frame_def frame_callbacks_step del: run_frame_callbacks.simps(2))

lemma one_slot_cases:
  assumes "one_slot s"
  obtains "pending s = []" "rafId s = None" | i where "pending s = [i]" "rafId s = Some i"
  using assms by (cases "rafId s") (simp_all add: one_slot_def)

lemma frame_one_slot:
  assumes "no_resubscribe H" and "one_slot s"
  shows "one_slot (state_of (frame H ts s))"
  using assms(2)
proof (cases rule: one_slot_cases)
  case 1
  then show ?thesis using assms(2) by (simp add: frame_idle)
next
  case (2 i)
  then show ?thesis
    using loop_quiet(1) [OF assms(1), of "s\<lparr>pending := []\<rparr>" ts] by (simp add: frame_single)
qed

lemma frame_after_pulse:
  assumes "no_resubscribe H" and "one_slot s" and "pending s \<noteq> []"
  shows "length (pending (state_of (frame H ts s)))
           = (if listeners (state_of (frame H ts s)) = [] then 0 else 1)"
  using assms(2)
proof (cases rule: one_slot_cases)
  case 1
  then show ?thesis using assms(3) by simp
next
  case (2 i)
  let ?s' = "state_of (loop H ts (s\<lparr>pending := []\<rparr>))"
  have "one_slot ?s'" and "rafId ?s' = None \<longleftrightarrow> listeners ?s' = []"
    using loop_quiet [OF assms(1), of "s\<lparr>pending := []\<rparr>" ts] by simp_all
  then have "length (pending ?s') = (if listeners ?s' = [] then 0 else 1)"
    by (cases "rafId ?s'") (simp_all add: one_slot_def)
  then show ?thesis
    using 2 by (simp add: frame_single)
qed

lemma frame_armed:
  assumes "one_slot s" and "armed s"
  shows "armed (state_of (frame H ts s))"
  using assms(1)
proof (cases rule: one_slot_cases)
  case 1
  then show ?thesis using assms(2) by (simp add: frame_idle)
next
  case (2 i)
  then show ?thesis
    using loop_scheduled [of H ts "s\<lparr>pending := []\<rparr>"] by (auto simp add: frame_single armed_def)
qed

lemma apply_event_one_slot:
  assumes "no_resubscribe H" and "one_slot s"
  shows "one_slot (state_of (apply_event H e s))"
  using assms
  by (cases e) (simp_all add: onTick_one_slot unsub_one_slot stopTicker_one_slot frame_one_slot)

lemma apply_event_armed:
  assumes "one_slot s" and "armed s" and "e \<noteq> StopTicker"
  shows "armed (state_of (apply_event H e s))"
proof (cases e)
  case (Subscribe h)
  then show ?thesis
    by (simp add: armed_def onTick_def requestAnimationFrame_def Let_def)
next
  case (Unsubscribe h)
  then show ?thesis
    using assms(2) by (auto simp add: armed_def)
next
  case StopTicker
  then show ?thesis using assms(3) by simp
next
  case (Frame ts)
  then show ?thesis
    using frame_armed [OF assms(1,2)] by simp
qed

lemma exec_one_slot:
  assumes "no_resubscribe H"
  shows "one_slot s \<Longrightarrow> one_slot (state_of (exec H es s))"
proof (induction es arbitrary: s)
  case Nil
  then show ?case by simp
next
  case (Cons e es)
  from Cons.IH [OF apply_event_one_slot [OF assms Cons.prems]]
  show ?case by (simp only: exec_step)
qed

lemma exec_armed:
  assumes "no_resubscribe H"
  shows "one_slot s \<Longrightarrow> armed s \<Longrightarrow> StopTicker \<notin> set es \<Longrightarrow> armed (state_of (exec H es s))"
proof (induction es arbitrary: s)
  case Nil
  then show ?case by simp
next
  case (Cons e es)
  have "e \<noteq> StopTicker" and "StopTicker \<notin> set es"
    using Cons.prems(3) by auto
  from Cons.IH [OF apply_event_one_slot [OF assms Cons.prems(1)]
      apply_event_armed [OF Cons.prems(1,2) this(1)] this(2)]
  show ?case by (simp only: exec_step)
qed

text \<open>
  Claim C3, as stated, fails. Unsubscribing does not cancel the frame request: after the only
  listener has unsubscribed between two pulses, the listener set is empty and one request is
  still pending (the next pulse finds no listener and requests nothing more).
\<close>

theorem C3_counterexample:
  "listeners (state_of (exec idle_handlers [Subscribe 0, Unsubscribe 0] ticker0)) = []
   \<and> pending (state_of (exec idle_handlers [Subscribe 0, Unsubscribe 0] ticker0)) = [0]"
  by (simp add: onTick_def unsub_def set_add_def set_delete_def ticker0_def Let_def
      requestAnimationFrame_def)

text \<open>
  Two more situations in which the number of pending requests is not the one of the claim.
  \<open>stopTicker\<close> cancels the request and keeps the listeners. A handler that subscribes
  another handler during a pulse makes \<open>onTick\<close> request a frame (\<open>rafId\<close> was cleared when
  the pulse began), and the end of the pulse requests a second one.
\<close>

lemma stopTicker_leaves_listeners_unscheduled:
  "listeners (state_of (exec idle_handlers [Subscribe 0, StopTicker] ticker0)) = [0]
   \<and> pending (state_of (exec idle_handlers [Subscribe 0, StopTicker] ticker0)) = []"
  by (simp add: onTick_def stopTicker_def cancelAnimationFrame_def set_add_def ticker0_def Let_def
      requestAnimationFrame_def)

lemma reentrant_subscribe_requests_two_frames:
  "listeners (state_of (exec resubscribing_handlers [Subscribe 0, Frame 0] ticker0)) = [0, 1]
   \<and> pending (state_of (exec resubscribing_handlers [Subscribe 0, Frame 0] ticker0)) = [1, 2]"
  by (simp add: frame_def loop_def invoke_def resubscribing_handlers_def onTick_def set_add_def
      ticker0_def Let_def requestAnimationFrame_def MAX_DT_def)

text \<open>
  Claim C3, amended. Provided no handler subscribes while a pulse runs, in every state the
  ticker reaches from its initial state: the host holds at most one pending request, the one
  recorded in \<open>rafId\<close>; if \<open>stopTicker\<close> was not called between pulses, a non-empty listener
  set has exactly one pending request; and right after a pulse there is no pending request
  when the listener set is empty and exactly one when it is not.
\<close>

theorem C3_pending_requests:
  assumes "no_resubscribe H" and "s = state_of (exec H es ticker0)"
  shows "one_slot s \<and> length (pending s) \<le> 1
       \<and> (StopTicker \<notin> set es \<longrightarrow> listeners s \<noteq> [] \<longrightarrow> length (pending s) = 1)
       \<and> (pending s \<noteq> [] \<longrightarrow>
            length (pending (state_of (frame H ts s)))
              = (if listeners (state_of (frame H ts s)) = [] then 0 else 1))"
proof -
  have o0: "one_slot ticker0" and a0: "armed ticker0"
    by (simp_all add: one_slot_def armed_def ticker0_def)
  have o: "one_slot s"
    unfolding assms(2) by (rule exec_one_slot [OF assms(1) o0])
  then have le: "length (pending s) \<le> 1"
    by (cases "rafId s") (simp_all add: one_slot_def)
  have "length (pending s) = 1" if "StopTicker \<notin> set es" and "listeners s \<noteq> []"
  proof -
    have "armed s"
      unfolding assms(2) by (rule exec_armed [OF assms(1) o0 a0 that(1)])
    with that(2) o show ?thesis
      by (cases "rafId s") (simp_all add: one_slot_def armed_def)
  qed
  moreover have "length (pending (state_of (frame H ts s)))
              = (if listeners (state_of (frame H ts s)) = [] then 0 else 1)"
    if "pending s \<noteq> []"
    by (rule frame_after_pulse [OF assms(1) o that])
  ultimately show ?thesis
    using o le by blast
qed

theorem C3_pending_requests_witness:
  "no_resubscribe unsubscribing_handlers
   \<and> StopTicker \<notin> set [Subscribe 0]
   \<and> listeners (state_of (exec unsubscribing_handlers [Subscribe 0] ticker0)) = [0]
   \<and> one_slot (state_of (exec unsubscribing_handlers [Subscribe 0] ticker0))
   \<and> length (pending (state_of (exec unsubscribing_handlers [Subscribe 0] ticker0))) = 1
   \<and> listeners (state_of (frame unsubscribing_handlers 16
         (state_of (exec unsubscribing_handlers [Subscribe 0] ticker0)))) = []
   \<and> length (pending (state_of (frame unsubscribing_handlers 16
         (state_of (exec unsubscribing_handlers [Subscribe 0] ticker0))))) = 0"
proof -
  let ?s = "state_of (exec unsubscribing_handlers [Subscribe 0] ticker0)"
  have n: "no_resubscribe unsubscribing_handlers"
    by (simp add: no_resubscribe_def unsubscribing_handlers_def)
  have l: "listeners ?s = [0]" and p: "pending ?s = [0]"
    by (simp_all add: onTick_def set_add_def ticker0_def Let_def requestAnimationFrame_def)
  have f: "listeners (state_of (frame unsubscribing_handlers 16 ?s)) = []"
    by (simp add: frame_def loop_def invoke_def unsubscribing_handlers_def onTick_def unsub_def
        set_add_def set_delete_def ticker0_def Let_def requestAnimationFrame_def MAX_DT_def)
  from C3_pending_requests [OF n refl, of "[Subscribe 0]" 16] l p f
  show ?thesis
    using n by simp
qed

subsection \<open>Action channels\<close>

lemma extends_refl: "extends A c c"
  by (simp add: extends_def)

lemma extends_trans:
  assumes "extends A c c'" and "extends B c' c''"
  shows "extends (A \<union> B) c c''"
  unfolding extends_def
proof (intro conjI allI impI)
  show "nextRef c \<le> nextRef c''"
    using assms by (simp add: extends_def)
  show "heap c'' b = heap c b" if "b < nextRef c" and "b \<notin> A \<union> B" for b
  proof -
    have "b < nextRef c'" using assms(1) that(1) by (simp add: extends_def)
    then have "heap c'' b = heap c' b" using assms(2) that(2) by (simp add: extends_def)
    moreover have "heap c' b = heap c b" using assms(1) that by (simp add: extends_def)
    ultimately show ?thesis by simp
  qed
  show "b \<in> set (actions c)" if "b < nextRef c" and "b \<in> set (actions c'')" for b
  proof -
    have "b < nextRef c'" using assms(1) that(1) by (simp add: extends_def)
    then have "b \<in> set (actions c')" using assms(2) that(2) by (simp add: extends_def)
    then show ?thesis using assms(1) that(1) by (simp add: extends_def)
  qed
  show "wf_channel c''" if "wf_channel c"
    using assms that by (simp add: extends_def)
qed

lemma extends_trans0: "extends {} c c' \<Longrightarrow> extends {} c' c'' \<Longrightarrow> extends {} c c''"
  using extends_trans [of "{}" c c' "{}" c''] by simp

lemma push_extends: "extends {} c (push item c)"
  by (auto simp add: extends_def push_def wf_channel_def)

lemma cancel_extends: "extends {} c (cancel nm c)"
  by (auto simp add: extends_def cancel_def wf_channel_def)

lemma start_extends: "extends {} c (start c)"
  by (auto simp add: extends_def start_def wf_channel_def)

lemma stop_extends: "extends {} c (stop c)"
  by (auto simp add: extends_def stop_def wf_channel_def)

lemma destroy_extends: "extends {} c (destroy c)"
  by (auto simp add: extends_def destroy_def stop_def wf_channel_def)

lemma fired_calls_log [simp]:
  "fired_calls (c\<lparr>calls := calls c @ [ev]\<rparr>) = fired_calls c @ (if is_fired ev then [ev] else [])"
  by (simp add: fired_calls_def)

lemma op_calls [simp]:
  "fired_calls (push item c) = fired_calls c" "fired_calls (cancel nm c) = fired_calls c"
  "fired_calls (start c) = fired_calls c" "fired_calls (stop c) = fired_calls c"
  "fired_calls (destroy c) = fired_calls c"
  by (simp_all add: fired_calls_def push_def cancel_def start_def stop_def destroy_def)

lemma log_extends: "extends {} c (c\<lparr>calls := l\<rparr>)"
  by (simp add: extends_def wf_channel_def)

lemma run_acts_extends: "extends {} c (state_of (run_acts cs c))"
proof (induction cs c rule: run_acts.induct)
  case (1 c)
  then show ?case by (simp add: extends_refl)
next
  case (2 ival f nm cu cs c)
  then show ?case
    using extends_trans0 [OF push_extends] by (simp add: every_push_def)
next
  case (3 ival f nm cu body cs c)
  let ?c1 = "every_push ival f nm cu c"
  let ?c2 = "?c1\<lparr>calls := calls ?c1 @ [Immediate f]\<rparr>"
  let ?c3 = "state_of (run_acts body ?c2)"
  have "extends {} c ?c1"
    using push_extends by (simp add: every_push_def)
  then have "extends {} c ?c2"
    by (rule extends_trans0 [OF _ log_extends])
  then have "extends {} c ?c3"
    using "3.IH"(1) [OF refl refl] by (rule extends_trans0)
  moreover have "extends {} ?c3 (state_of (run_acts cs ?c3))"
    using "3.IH"(2) [OF refl refl] by simp
  ultimately have "extends {} c (state_of (run_acts cs ?c3))"
    by (rule extends_trans0)
  then show ?case by (simp add: Let_def)
next
  case (4 dl f nm cs c)
  then show ?case
    using extends_trans0 [OF push_extends] by (simp add: once_def)
next
  case (5 nm cs c)
  then show ?case
    using extends_trans0 [OF cancel_extends] by simp
next
  case (6 cs c)
  then show ?case
    using extends_trans0 [OF start_extends] by simp
next
  case (7 cs c)
  then show ?case
    using extends_trans0 [OF stop_extends] by simp
next
  case (8 cs c)
  then show ?case
    using extends_trans0 [OF destroy_extends] by simp
next
  case (9 cs c)
  then show ?case by (simp add: extends_refl)
qed

lemma run_acts_calls [simp]: "fired_calls (state_of (run_acts cs c)) = fired_calls c"
  by (induction cs c rule: run_acts.induct) (simp_all add: every_push_def once_def Let_def)

lemma try_fn_extends: "extends {} c (try_fn F ev f c)"
  unfolding try_fn_def Let_def
  using extends_trans0 [OF log_extends run_acts_extends] by simp

lemma try_fn_calls [simp]:
  "fired_calls (try_fn F ev f c) = fired_calls c @ (if is_fired ev then [ev] else [])"
  by (simp add: try_fn_def Let_def)

lemma fire_n_extends: "extends {} c (fire_n F n a f c)"
proof (induction n arbitrary: c)
  case 0
  then show ?case by (simp add: extends_refl)
next
  case (Suc n)
  show ?case
    using extends_trans0 [OF try_fn_extends Suc] by simp
qed

lemma fire_n_calls [simp]:
  "fired_calls (fire_n F n a f c) = fired_calls c @ replicate n (Fired a)"
  by (induction n arbitrary: c) (simp_all add: replicate_app_Cons_same)

lemma write_elapsed_extends: "extends {a} c (write_elapsed a e c)"
  by (simp add: extends_def write_elapsed_def wf_channel_def split: option.splits)

lemma write_elapsed_fields [simp]:
  "fired_calls (write_elapsed a e c) = fired_calls c"
  "nextRef (write_elapsed a e c) = nextRef c"
  "actions (write_elapsed a e c) = actions c"
  "heap (write_elapsed a e c) a = map_option (set_elapsed e) (heap c a)"
  by (simp_all add: write_elapsed_def fired_calls_def split: option.splits)

lemma splice_extends: "extends {} c (c\<lparr>actions := remove1 a (actions c)\<rparr>)"
  by (auto simp add: extends_def wf_channel_def dest: set_remove1_subset [THEN subsetD])

lemma step_item_extends: "extends {a} c (step_item F dt a c)"
proof (cases "heap c a")
  case None
  then show ?thesis by (simp add: step_item_def extends_refl)
next
  case (Some obj)
  let ?c = "write_elapsed a (elapsed obj + dt) c"
  have w: "extends {a} c ?c" by (rule write_elapsed_extends)
  have t: "extends {a} c (try_fn F ev f c')" if "extends {a} c c'" for c' ev f
    using extends_trans [OF that try_fn_extends] by simp
  have n: "extends {a} c (fire_n F k a f c')" if "extends {a} c c'" for c' k f
    using extends_trans [OF that fire_n_extends] by simp
  have w2: "extends {a} c (write_elapsed a e ?c)" for e
    using extends_trans [OF w write_elapsed_extends [of a ?c e]] by simp
  have s: "extends {a} c (c'\<lparr>actions := remove1 a (actions c')\<rparr>)" if "extends {a} c c'" for c'
    using extends_trans [OF that splice_extends] by simp
  show ?thesis
  proof (cases obj)
    case (PeriodicAction nm ival e0 f cu)
    then show ?thesis
      using Some w t [OF w] t [OF w2] n [OF w2]
      by (simp add: step_item_def Let_def)
  next
    case (OnceAction nm dl e0 f)
    then show ?thesis
      using Some w s [OF t [OF w]]
      by (simp add: step_item_def Let_def)
  qed
qed

lemma extends_heap: "extends A c c' \<Longrightarrow> b < nextRef c \<Longrightarrow> b \<notin> A \<Longrightarrow> heap c' b = heap c b"
  by (simp add: extends_def)

lemma extends_nextRef: "extends A c c' \<Longrightarrow> b < nextRef c \<Longrightarrow> b < nextRef c'"
  by (simp add: extends_def)

lemma extends_absent:
  "extends A c c' \<Longrightarrow> b < nextRef c \<Longrightarrow> b \<notin> set (actions c) \<Longrightarrow> b \<notin> set (actions c')"
  by (auto simp add: extends_def)

lemma extends_wf: "extends A c c' \<Longrightarrow> wf_channel c \<Longrightarrow> wf_channel c'"
  by (simp add: extends_def)

lemma fired_calls_splice [simp]: "fired_calls (c\<lparr>actions := l\<rparr>) = fired_calls c"
  by (simp add: fired_calls_def)

lemma step_item_calls: "fired_calls (step_item F dt a c) = fired_calls c @ fires_of c dt a"
proof (cases "heap c a")
  case None
  then show ?thesis by (simp add: step_item_def fires_of_def)
next
  case (Some obj)
  then show ?thesis
    by (cases obj) (simp_all add: step_item_def fires_of_def due_count_def Let_def)
qed

lemma set_elapsed_twice [simp]: "set_elapsed e (set_elapsed e' obj) = set_elapsed e obj"
  by (cases obj) (simp_all add: set_elapsed_def)

lemma step_item_heap:
  assumes "a < nextRef c"
  shows "heap (step_item F dt a c) a = map_option (stepped dt) (heap c a)"
proof (cases "heap c a")
  case None
  then show ?thesis by (simp add: step_item_def)
next
  case (Some obj)
  let ?c = "write_elapsed a (elapsed obj + dt) c"
  have a: "a < nextRef (write_elapsed a e c')" if "a < nextRef c'" for e c'
    using that by simp
  have t: "heap (try_fn F ev f c') a = heap c' a" if "a < nextRef c'" for c' ev f
    using extends_heap [OF try_fn_extends that] by simp
  have n: "heap (fire_n F k a f c') a = heap c' a" if "a < nextRef c'" for c' k f
    using extends_heap [OF fire_n_extends that] by simp
  show ?thesis
  proof (cases obj)
    case (PeriodicAction nm ival e0 f cu)
    then show ?thesis
      using Some assms
      by (simp add: step_item_def Let_def t n stepped_def set_elapsed_def)
  next
    case (OnceAction nm dl e0 f)
    then show ?thesis
      using Some assms
      by (simp add: step_item_def Let_def t stepped_def set_elapsed_def)
  qed
qed

lemma step_items_append:
  "step_items F dt (ys @ zs) c = step_items F dt zs (step_items F dt ys c)"
  by (induction ys arbitrary: c) simp_all

lemma fires_of_cong: "heap c' a = heap c a \<Longrightarrow> fires_of c' dt a = fires_of c dt a"
  by (simp add: fires_of_def)

lemma step_items_effect:
  assumes "distinct xs" and "\<forall>a \<in> set xs. a < nextRef c"
  shows "extends (set xs) c (step_items F dt xs c)
       \<and> fired_calls (step_items F dt xs c) = fired_calls c @ concat (map (fires_of c dt) xs)
       \<and> (\<forall>a \<in> set xs. heap (step_items F dt xs c) a = map_option (stepped dt) (heap c a))"
  using assms
proof (induction xs arbitrary: c)
  case Nil
  then show ?case by (simp add: extends_refl)
next
  case (Cons a xs)
  let ?c1 = "step_item F dt a c"
  let ?c' = "step_items F dt xs ?c1"
  have e1: "extends {a} c ?c1" by (rule step_item_extends)
  have a: "a < nextRef c" and axs: "a \<notin> set xs" and d: "distinct xs"
    using Cons.prems by simp_all
  have lt: "\<forall>b \<in> set xs. b < nextRef ?c1"
    using Cons.prems(2) extends_nextRef [OF e1] by simp
  from Cons.IH [OF d lt]
  have ih: "extends (set xs) ?c1 ?c'"
    "fired_calls ?c' = fired_calls ?c1 @ concat (map (fires_of ?c1 dt) xs)"
    "\<forall>b \<in> set xs. heap ?c' b = map_option (stepped dt) (heap ?c1 b)"
    by simp_all
  have same: "heap ?c1 b = heap c b" if "b \<in> set xs" for b
    using extends_heap [OF e1, of b] that axs Cons.prems(2) by auto
  have "extends ({a} \<union> set xs) c ?c'"
    by (rule extends_trans [OF e1 ih(1)])
  then have g1: "extends (set (a # xs)) c (step_items F dt (a # xs) c)"
    by simp
  have m: "map (fires_of ?c1 dt) xs = map (fires_of c dt) xs"
    by (rule map_cong [OF refl], rule fires_of_cong, rule same)
  have g2: "fired_calls (step_items F dt (a # xs) c)
                   = fired_calls c @ concat (map (fires_of c dt) (a # xs))"
    by (simp add: ih(2) step_item_calls m)
  have "heap ?c' a = heap ?c1 a"
    using extends_heap [OF ih(1) extends_nextRef [OF e1 a] axs] .
  then have ha: "heap ?c' a = map_option (stepped dt) (heap c a)"
    using step_item_heap [OF a] by simp
  have g3: "\<forall>b \<in> set (a # xs). heap (step_items F dt (a # xs) c) b
              = map_option (stepped dt) (heap c b)"
    using ha ih(3) same by simp
  from g1 g2 g3 show ?case by blast
qed

lemma count_list_replicate_eq:
  "count_list (replicate n x) y = (if x = y then n else 0)"
  by (induction n) auto

lemma count_fires_of:
  "count_list (fires_of c dt b) (Fired a)
     = (if b = a then (case heap c a of None \<Rightarrow> 0 | Some obj \<Rightarrow> due_count dt obj) else 0)"
  by (simp add: fires_of_def count_list_replicate_eq split: option.splits)

lemma count_list_concat_fires:
  "distinct xs \<Longrightarrow>
   count_list (concat (map (fires_of c dt) xs)) (Fired a)
     = (if a \<in> set xs then (case heap c a of None \<Rightarrow> 0 | Some obj \<Rightarrow> due_count dt obj) else 0)"
  by (induction xs) (auto simp add: count_fires_of)

lemma set_fires_of: "set (fires_of c dt a) \<subseteq> {Fired a}"
  by (auto simp add: fires_of_def split: option.splits)

lemma step_running:
  "running c \<Longrightarrow> step F dt c = step_items F dt (actions c) c"
  by (cases "actions c") (simp_all add: step_def)

lemma step_effect:
  assumes "wf_channel c" and "running c"
  shows "extends (set (actions c)) c (step F dt c)"
    and "new_calls c (step F dt c) = concat (map (fires_of c dt) (actions c))"
    and "a \<in> set (actions c) \<Longrightarrow> heap (step F dt c) a = map_option (stepped dt) (heap c a)"
  using step_items_effect [of "actions c" c F dt] assms
  by (simp_all add: step_running wf_channel_def new_calls_def)

lemma step_item_once_removed:
  assumes "wf_channel c" and "heap c a = Some (OnceAction nm dl e0 f)" and "e0 + dt \<ge> dl"
  shows "a \<notin> set (actions (step_item F dt a c))"
proof -
  let ?c' = "try_fn F (Fired a) f (write_elapsed a (e0 + dt) c)"
  have "extends ({a} \<union> {}) c ?c'"
    by (rule extends_trans [OF write_elapsed_extends try_fn_extends])
  then have "wf_channel ?c'"
    using assms(1) by (rule extends_wf)
  then have "a \<notin> set (remove1 a (actions ?c'))"
    by (simp add: wf_channel_def)
  then show ?thesis
    using assms(2,3) by (simp add: step_item_def Let_def)
qed

lemma step_items_once_removed:
  assumes "wf_channel c" and "distinct xs" and "\<forall>b \<in> set xs. b < nextRef c"
    and "a \<in> set xs" and "heap c a = Some (OnceAction nm dl e0 f)" and "e0 + dt \<ge> dl"
  shows "a \<notin> set (actions (step_items F dt xs c))"
proof -
  obtain ys zs where xs: "xs = ys @ a # zs"
    using assms(4) by (auto dest: split_list)
  have d: "distinct ys" "distinct zs" "a \<notin> set ys" "a \<notin> set zs"
    using assms(2) xs by simp_all
  have a: "a < nextRef c"
    using assms(3,4) by simp
  let ?c1 = "step_items F dt ys c"
  let ?c2 = "step_item F dt a ?c1"
  let ?c3 = "step_items F dt zs ?c2"
  have e1: "extends (set ys) c ?c1"
    using step_items_effect [OF d(1), of c F dt] assms(3) xs by simp
  have e2: "extends {a} ?c1 ?c2"
    by (rule step_item_extends)
  have e12: "extends (set ys \<union> {a}) c ?c2"
    by (rule extends_trans [OF e1 e2])
  have lt: "\<forall>b \<in> set zs. b < nextRef ?c2"
    using assms(3) xs extends_nextRef [OF e12] by simp
  have e3: "extends (set zs) ?c2 ?c3"
    using step_items_effect [OF d(2) lt, of F dt] by simp
  have "heap ?c1 a = Some (OnceAction nm dl e0 f)"
    using extends_heap [OF e1 a d(3)] assms(5) by simp
  from step_item_once_removed [OF extends_wf [OF e1 assms(1)] this assms(6)]
  have "a \<notin> set (actions ?c2)" .
  from extends_absent [OF e3 extends_nextRef [OF e12 a] this]
  show ?thesis
    by (simp add: xs step_items_append)
qed

text \<open>
  Every channel that the operations of the class build from a new one is well formed.
\<close>

lemma channel0_wf: "wf_channel channel0"
  by (simp add: wf_channel_def channel0_def)

lemma api_keeps_wf:
  assumes "wf_channel c"
  shows "wf_channel (every F ival f opts c)" and "wf_channel (once dl f nm c)"
    and "wf_channel (start c)" and "wf_channel (stop c)" and "wf_channel (cancel nm c)"
    and "wf_channel (destroy c)" and "wf_channel (step F dt c)"
proof -
  have p: "wf_channel (every_push ival f nm' cu c)" for nm' cu
    using extends_wf [OF push_extends assms] by (simp add: every_push_def)
  show "wf_channel (every F ival f opts c)"
    using p extends_wf [OF try_fn_extends p] by (simp add: every_def Let_def)
  show "wf_channel (once dl f nm c)"
    using extends_wf [OF push_extends assms] by (simp add: once_def)
  show "wf_channel (start c)" by (rule extends_wf [OF start_extends assms])
  show "wf_channel (stop c)" by (rule extends_wf [OF stop_extends assms])
  show "wf_channel (cancel nm c)" by (rule extends_wf [OF cancel_extends assms])
  show "wf_channel (destroy c)" by (rule extends_wf [OF destroy_extends assms])
  show "wf_channel (step F dt c)"
  proof (cases "running c")
    case True
    then show ?thesis using extends_wf [OF step_effect(1) [OF assms True] assms] by simp
  next
    case False
    then show ?thesis using assms by (simp add: step_def)
  qed
qed

text \<open>A channel that is not running ignores the step.\<close>

lemma example_stopped_channel: "step F dt (stop c) = stop c"
  by (simp add: step_def stop_def)

lemma ch_frameTick_eval:
  "wf_channel ch_frameTick" "running ch_frameTick" "actions ch_frameTick = [0]"
  "heap ch_frameTick 0 = Some (PeriodicAction (Some ''frameTick'') 200 0 0 True)"
  by (simp_all add: ch_frameTick_def wf_channel_def start_def every_push_def push_def
      channel0_def to_int32_def)

text \<open>
  Claim C1. Let a running channel hold a periodic action with an interval \<open>ival > 0\<close> and
  \<open>catchUp\<close> set, whose accumulated elapsed time is \<open>e0\<close>. A step whose delta \<open>dt\<close> brings
  the elapsed time to at least the interval invokes the callback of the action exactly
  \<open>n = \<lfloor>(e0 + dt) / ival\<rfloor>\<close> times and leaves the elapsed time \<open>e0 + dt - n * ival\<close>,
  whatever the callbacks of the channel do. For an interval of 200 and one step of 500 from
  elapsed 0 these are 2 invocations and 100 left over.
\<close>

theorem C1_catch_up:
  assumes "wf_channel c" and "running c" and "a \<in> set (actions c)"
    and "heap c a = Some (PeriodicAction nm ival e0 f True)"
    and "ival > 0" and "e0 + dt \<ge> ival"
  shows "int (count_list (new_calls c (step F dt c)) (Fired a)) = \<lfloor>(e0 + dt) / ival\<rfloor>
       \<and> heap (step F dt c) a
           = Some (PeriodicAction nm ival (e0 + dt - of_int \<lfloor>(e0 + dt) / ival\<rfloor> * ival) f True)"
proof -
  have "1 \<le> (e0 + dt) / ival"
    using assms(5,6) by simp
  then have n: "0 \<le> \<lfloor>(e0 + dt) / ival\<rfloor>"
    by linarith
  have "count_list (new_calls c (step F dt c)) (Fired a) = nat \<lfloor>(e0 + dt) / ival\<rfloor>"
    using assms
    by (simp add: step_effect(2) count_list_concat_fires wf_channel_def due_count_def)
  moreover have "heap (step F dt c) a
           = Some (PeriodicAction nm ival (e0 + dt - of_int \<lfloor>(e0 + dt) / ival\<rfloor> * ival) f True)"
    using assms by (simp add: step_effect(3) stepped_def)
  ultimately show ?thesis
    using n by simp
qed

theorem C1_catch_up_witness:
  "wf_channel ch_frameTick \<and> running ch_frameTick \<and> 0 \<in> set (actions ch_frameTick)
   \<and> heap ch_frameTick 0 = Some (PeriodicAction (Some ''frameTick'') 200 0 0 True)
   \<and> int (count_list (new_calls ch_frameTick (step busy_callbacks 500 ch_frameTick)) (Fired 0)) = 2
   \<and> heap (step busy_callbacks 500 ch_frameTick) 0
        = Some (PeriodicAction (Some ''frameTick'') 200 100 0 True)"
proof -
  have a: "0 \<in> set (actions ch_frameTick)" and i: "(200::real) > 0" and d: "0 + 500 \<ge> (200::real)"
    by (simp_all add: ch_frameTick_eval)
  from C1_catch_up [OF ch_frameTick_eval(1,2) a ch_frameTick_eval(4) i d, of busy_callbacks]
  show ?thesis
    using a by (simp add: ch_frameTick_eval)
qed

text \<open>
  Without \<open>catchUp\<close> the same action fires once in a step of 500 and keeps the rest
  of the elapsed time, which accumulates over the steps.
\<close>

lemma example_no_catch_up:
  "new_calls ch_no_catch_up (step quiet_callbacks 500 ch_no_catch_up) = [Fired 0]
   \<and> heap (step quiet_callbacks 500 ch_no_catch_up) 0 = Some (PeriodicAction None 200 300 0 False)
   \<and> heap (step quiet_callbacks 500 (step quiet_callbacks 500 ch_no_catch_up)) 0
       = Some (PeriodicAction None 200 600 0 False)"
  by (simp add: ch_no_catch_up_def start_def every_push_def push_def channel0_def to_int32_def
      step_def step_item_def write_elapsed_def set_elapsed_def try_fn_def quiet_callbacks_def
      new_calls_def fired_calls_def Let_def)

lemma ch_every_frame_eval:
  "wf_channel ch_every_frame" "running ch_every_frame" "actions ch_every_frame = [0]"
  "heap ch_every_frame 0 = Some (PeriodicAction None 0 0 0 True)"
  by (simp_all add: ch_every_frame_def wf_channel_def start_def every_push_def push_def
      channel0_def to_int32_def)

text \<open>
  Claim C5, as stated, fails: \<open>step\<close> adds the delta to the elapsed time of every action
  before it looks at the kind and the interval, so the elapsed time of an action with
  interval 0 grows by the delta at each step.
\<close>

theorem C5_counterexample:
  "running ch_every_frame \<and> actions ch_every_frame = [0]
   \<and> heap ch_every_frame 0 = Some (PeriodicAction None 0 0 0 True)
   \<and> heap (step quiet_callbacks 16 ch_every_frame) 0 = Some (PeriodicAction None 0 16 0 True)"
  by (simp add: ch_every_frame_eval step_def step_item_def write_elapsed_def set_elapsed_def
      try_fn_def quiet_callbacks_def Let_def)

text \<open>
  Claim C5, amended. For a periodic action whose interval is 0, a step of a running channel
  invokes the callback exactly once; the step adds its delta to the elapsed time of the
  action, as it does for every action, and subtracts nothing from it.
\<close>

theorem C5_every_frame:
  assumes "wf_channel c" and "running c" and "a \<in> set (actions c)"
    and "heap c a = Some (PeriodicAction nm 0 e0 f cu)"
  shows "count_list (new_calls c (step F dt c)) (Fired a) = 1
       \<and> heap (step F dt c) a = Some (PeriodicAction nm 0 (e0 + dt) f cu)"
  using assms
  by (simp add: step_effect(2,3) count_list_concat_fires wf_channel_def due_count_def stepped_def)

theorem C5_every_frame_witness:
  "wf_channel ch_every_frame \<and> running ch_every_frame \<and> 0 \<in> set (actions ch_every_frame)
   \<and> heap ch_every_frame 0 = Some (PeriodicAction None 0 0 0 True)
   \<and> count_list (new_calls ch_every_frame (step busy_callbacks 16 ch_every_frame)) (Fired 0) = 1
   \<and> heap (step busy_callbacks 16 ch_every_frame) 0 = Some (PeriodicAction None 0 16 0 True)"
proof -
  have a: "0 \<in> set (actions ch_every_frame)"
    by (simp add: ch_every_frame_eval)
  from C5_every_frame [OF ch_every_frame_eval(1,2) a ch_every_frame_eval(4), of busy_callbacks 16]
  show ?thesis
    using a by (simp add: ch_every_frame_eval)
qed

text \<open>Three steps of any delta fire an action with interval 0 three times.\<close>

lemma example_every_frame_three_ticks:
  "new_calls ch_every_frame
     (step quiet_callbacks 16 (step quiet_callbacks 5 (step quiet_callbacks 100 ch_every_frame)))
     = [Fired 0, Fired 0, Fired 0]"
  by (simp add: ch_every_frame_def start_def every_push_def push_def channel0_def to_int32_def
      step_def step_item_def write_elapsed_def set_elapsed_def try_fn_def quiet_callbacks_def
      new_calls_def fired_calls_def Let_def)

lemma ch_self_eval:
  "wf_channel ch_self" "running ch_self" "actions ch_self = [0]"
  "heap ch_self 0 = Some (PeriodicAction (Some ''a'') 30 0 0 True)"
  by (simp_all add: ch_self_def wf_channel_def start_def every_push_def push_def
      channel0_def to_int32_def)

lemma ch_once_eval:
  "wf_channel ch_once" "running ch_once" "actions ch_once = [0]"
  "heap ch_once 0 = Some (OnceAction None 1000 0 0)" "nextRef ch_once = 1"
  by (simp_all add: ch_once_def wf_channel_def start_def once_def push_def
      channel0_def to_int32_def)

text \<open>
  Claim C4, as stated, fails: \<open>step\<close> never looks at the array again for an action of its
  copy. A periodic action with interval 30 whose callback cancels the action itself is
  removed from the array by its first invocation in a step of 100, and is invoked twice more
  in that step.
\<close>

theorem C4_counterexample:
  "actions ch_self = [0]
   \<and> actions (try_fn self_cancelling (Fired 0) 0 ch_self) = []
   \<and> new_calls ch_self (step self_cancelling 100 ch_self) = [Fired 0, Fired 0, Fired 0]
   \<and> actions (step self_cancelling 100 ch_self) = []"
proof -
  have n: "\<lfloor>(100::real) / 30\<rfloor> = 3"
    by (simp add: floor_eq_iff)
  have c: "actions (try_fn self_cancelling (Fired 0) 0 ch_self) = []"
    by (simp add: ch_self_eval try_fn_def self_cancelling_def cancel_def name_differs_def Let_def)
  have s: "new_calls ch_self (step self_cancelling 100 ch_self) = [Fired 0, Fired 0, Fired 0]"
    using step_effect(2) [OF ch_self_eval(1,2), of self_cancelling 100]
    by (simp add: ch_self_eval fires_of_def due_count_def n numeral_3_eq_3)
  have "actions (step self_cancelling 100 ch_self) = []"
    by (simp add: ch_self_def start_def every_push_def push_def channel0_def to_int32_def
        step_def step_item_def write_elapsed_def set_elapsed_def try_fn_def self_cancelling_def
        cancel_def name_differs_def Let_def n numeral_3_eq_3)
  with c s show ?thesis
    by (simp add: ch_self_eval)
qed

text \<open>
  A callback that cancels an action which comes later in the copy: that action is removed
  from the array and still fires in the same step.
\<close>

lemma example_cancelled_later_action_still_fires:
  "actions ch_two = [0, 1]
   \<and> actions (step self_cancelling 16 ch_two) = [0]
   \<and> new_calls ch_two (step self_cancelling 16 ch_two) = [Fired 0, Fired 1]"
  by (simp add: ch_two_def start_def every_push_def push_def channel0_def to_int32_def
      step_def step_item_def write_elapsed_def set_elapsed_def try_fn_def self_cancelling_def
      cancel_def name_differs_def new_calls_def fired_calls_def Let_def)

text \<open>
  Claim C4, amended. A step of a running channel fires exactly what the actions in the array
  at the start of the tick are due for, in the order of the array and as often as the state
  of each action at the start of the tick requires, whatever the callbacks schedule or
  cancel meanwhile. So only actions present at the start of the tick fire in it (an action
  that a callback schedules during the tick does not), an action that a callback cancels
  during the tick is still processed in that tick, a one-shot fires at most once in a tick,
  and a one-shot that fires is no longer in the array after the tick.
\<close>

theorem C4_snapshot:
  assumes "wf_channel c" and "running c"
  shows "new_calls c (step F dt c) = concat (map (fires_of c dt) (actions c))
       \<and> (\<forall>b. Fired b \<in> set (new_calls c (step F dt c)) \<longrightarrow> b \<in> set (actions c) \<and> b < nextRef c)
       \<and> (heap c a = Some (OnceAction nm dl e0 f) \<longrightarrow>
            count_list (new_calls c (step F dt c)) (Fired a) \<le> 1)
       \<and> (a \<in> set (actions c) \<longrightarrow> heap c a = Some (OnceAction nm dl e0 f) \<longrightarrow> e0 + dt \<ge> dl \<longrightarrow>
            count_list (new_calls c (step F dt c)) (Fired a) = 1
            \<and> a \<notin> set (actions (step F dt c)))"
proof -
  have eq: "new_calls c (step F dt c) = concat (map (fires_of c dt) (actions c))"
    by (rule step_effect(2) [OF assms])
  have d: "distinct (actions c)" and lt: "\<forall>b \<in> set (actions c). b < nextRef c"
    using assms(1) by (simp_all add: wf_channel_def)
  have f: "b \<in> set (actions c) \<and> b < nextRef c" if "Fired b \<in> set (new_calls c (step F dt c))" for b
    using that lt set_fires_of [of c dt] unfolding eq by fastforce
  have o: "count_list (new_calls c (step F dt c)) (Fired a) \<le> 1"
    if "heap c a = Some (OnceAction nm dl e0 f)"
    using that d by (simp add: eq count_list_concat_fires due_count_def)
  have r: "count_list (new_calls c (step F dt c)) (Fired a) = 1 \<and> a \<notin> set (actions (step F dt c))"
    if "a \<in> set (actions c)" and "heap c a = Some (OnceAction nm dl e0 f)" and "e0 + dt \<ge> dl"
  proof -
    have "count_list (new_calls c (step F dt c)) (Fired a) = 1"
      using that d by (simp add: eq count_list_concat_fires due_count_def)
    moreover have "a \<notin> set (actions (step F dt c))"
      using step_items_once_removed [OF assms(1) d lt that] assms(2)
      by (simp add: step_running)
    ultimately show ?thesis by simp
  qed
  from eq f o r show ?thesis by blast
qed

theorem C4_snapshot_witness:
  "wf_channel ch_once \<and> running ch_once \<and> actions ch_once = [0]
   \<and> heap ch_once 0 = Some (OnceAction None 1000 0 0)
   \<and> new_calls ch_once (step rescheduling 1000 ch_once) = [Fired 0]
   \<and> count_list (new_calls ch_once (step rescheduling 1000 ch_once)) (Fired 0) = 1
   \<and> actions (step rescheduling 1000 ch_once) = [1]
   \<and> 0 \<notin> set (actions (step rescheduling 1000 ch_once))"
proof -
  have s: "actions (step rescheduling 1000 ch_once) = [1]"
    by (simp add: ch_once_eval step_def step_item_def write_elapsed_def set_elapsed_def
        try_fn_def rescheduling_def once_def push_def Let_def)
  from C4_snapshot [OF ch_once_eval(1,2), of rescheduling 1000 0 None 1000 0 0]
  show ?thesis
    using s by (simp add: ch_once_eval fires_of_def due_count_def)
qed

text \<open>
  A one-shot with delay 1000 and three steps of 400: it fires in the third step and is
  gone afterwards.
\<close>

lemma example_one_shot_third_tick:
  "new_calls ch_oneshot (step quiet_callbacks 400 ch_oneshot) = []
   \<and> new_calls ch_oneshot (step quiet_callbacks 400 (step quiet_callbacks 400 ch_oneshot)) = []
   \<and> new_calls ch_oneshot
        (step quiet_callbacks 400 (step quiet_callbacks 400 (step quiet_callbacks 400 ch_oneshot)))
       = [Fired 0]
   \<and> actions (step quiet_callbacks 400 (step quiet_callbacks 400 (step quiet_callbacks 400 ch_oneshot)))
       = []"
  by (simp add: ch_oneshot_def start_def once_def push_def channel0_def to_int32_def
      step_def step_item_def write_elapsed_def set_elapsed_def try_fn_def quiet_callbacks_def
      new_calls_def fired_calls_def Let_def)

text \<open>
  \<open>cancel\<close> with a non-empty name keeps exactly the actions whose name differs, \<open>cancel\<close>
  without a name empties the array, and neither changes whether the channel runs.
\<close>

lemma cancel_by_name:
  "str \<noteq> [] \<Longrightarrow>
     cancel (Some str) c = c\<lparr>actions := filter (name_differs c str) (actions c)\<rparr>"
  by (simp add: cancel_def)

lemma cancel_all: "cancel None c = c\<lparr>actions := []\<rparr>"
  by (simp add: cancel_def)

lemma cancel_keeps_running: "running (cancel nm c) = running c \<and> subscribed (cancel nm c) = subscribed c"
  by (simp add: cancel_def)

text \<open>
  Claim C7 at the empty name. \<open>cancel('')\<close> is given a name, and \<open>if (name)\<close> takes the
  empty string for a missing argument: the action named \<open>x\<close> is removed together with the
  action whose name is the empty string.
\<close>

theorem C7_cancel_empty_name:
  "actions ch_named = [0, 1]
   \<and> map_option name (heap ch_named 0) = Some (Some '''')
   \<and> map_option name (heap ch_named 1) = Some (Some ''x'')
   \<and> actions (cancel (Some '''') ch_named) = []"
  by (simp add: ch_named_def cancel_def every_push_def push_def channel0_def)

end
